theory Spec2Isabelle
  imports Main "HOL-Library.Sublist"
begin

section \<open>The Go standard library functions the pipeline calls\<close>

text \<open>
  A Go \<open>string\<close> is a sequence of bytes, and so is a HOL \<open>string\<close>. The functions of
  package \<open>strings\<close> that \<open>rag.go\<close> calls are modelled on byte lists.
\<close>

text \<open>\<open>strings.HasPrefix(s, prefix)\<close>:
  \<open>len(s) >= len(prefix) && s[:len(prefix)] == prefix\<close>.\<close>

definition HasPrefix :: "string \<Rightarrow> string \<Rightarrow> bool" where
  "HasPrefix s pre = (length pre \<le> length s \<and> take (length pre) s = pre)"

text \<open>\<open>strings.Index(s, substr)\<close>: the index of the first instance of \<open>substr\<close> in \<open>s\<close>,
  or \<open>-1\<close> if \<open>substr\<close> is not present in \<open>s\<close>.\<close>

fun Index :: "string \<Rightarrow> string \<Rightarrow> int" where
  "Index [] substr = (if substr = [] then 0 else - 1)"
| "Index (c # cs) substr =
     (if HasPrefix (c # cs) substr then 0
      else (let m = Index cs substr in if m < 0 then - 1 else m + 1))"

text \<open>\<open>strings.Contains(s, substr)\<close>: \<open>Index(s, substr) >= 0\<close>.\<close>

definition Contains :: "string \<Rightarrow> string \<Rightarrow> bool" where
  "Contains s substr = (0 \<le> Index s substr)"

text \<open>\<open>strings.SplitN(s, sep, n)\<close> for a non-empty separator and \<open>n \<ge> 0\<close>: at most \<open>n\<close>
  substrings, cut at the first occurrences of \<open>sep\<close>; the last one is the unsplit
  remainder. (\<open>n = 0\<close> gives no substring at all.)\<close>

fun SplitN :: "string \<Rightarrow> string \<Rightarrow> nat \<Rightarrow> string list" where
  "SplitN s sep 0 = []"
| "SplitN s sep (Suc n) =
     (if n = 0 then [s]
      else (let m = Index s sep in
            if m < 0 then [s]
            else take (nat m) s # SplitN (drop (nat m + length sep) s) sep n))"

text \<open>\<open>strings.ToLower(s)\<close>. A string of ASCII bytes only (all below \<open>0x80\<close>) has each of
  its bytes \<open>'A'..'Z'\<close> moved up by \<open>'a' - 'A'\<close>. Any other string is mapped rune by rune
  through the Unicode tables of the Go runtime, \<open>strings.Map(unicode.ToLower, s)\<close>: that
  function is the parameter \<open>unicodeLower\<close>.\<close>

definition isASCII :: "string \<Rightarrow> bool" where
  "isASCII s = list_all (\<lambda>c. (of_char c :: nat) < 128) s"

definition lowerByte :: "char \<Rightarrow> char" where
  "lowerByte c =
     (if (of_char (CHR ''A'') :: nat) \<le> of_char c \<and> (of_char c :: nat) \<le> of_char (CHR ''Z'')
      then char_of ((of_char c :: nat) + 32) else c)"

definition ToLower :: "(string \<Rightarrow> string) \<Rightarrow> string \<Rightarrow> string" where
  "ToLower unicodeLower s = (if isASCII s then map lowerByte s else unicodeLower s)"

section \<open>The data model of \<open>rag.go\<close>\<close>

text \<open>\<open>Document\<close>: a chunk of the pipeline. \<open>Metadata\<close> is a Go \<open>map[string]string\<close>.\<close>

record Document =
  ID :: string
  Text :: string
  Metadata :: "string \<rightharpoonup> string"

text \<open>Reading a Go map at a key it does not hold gives the zero value, the empty string.\<close>

definition lookupMeta :: "(string \<rightharpoonup> string) \<Rightarrow> string \<Rightarrow> string" where
  "lookupMeta m k = (case m k of None \<Rightarrow> [] | Some v \<Rightarrow> v)"

text \<open>\<open>RAGPipeline\<close>, without its \<open>spiceClient\<close> field: the client is the collaborator
  below.\<close>

record RAGPipeline =
  docs :: "Document list"
  resourceType :: string
  permission :: string

text \<open>The messages of the authzed API (v1) that \<open>Query\<close> builds and reads, with the
  fields it sets or reads.\<close>

record ObjectReference =
  ObjectType :: string
  ObjectId :: string

record SubjectReference =
  Object :: ObjectReference

record CheckPermissionRequest =
  Resource :: ObjectReference
  Permission :: string
  Subject :: SubjectReference

datatype CheckPermissionResponse_Permissionship =
    PERMISSIONSHIP_UNSPECIFIED
  | PERMISSIONSHIP_NO_PERMISSION
  | PERMISSIONSHIP_HAS_PERMISSION
  | PERMISSIONSHIP_CONDITIONAL_PERMISSION

record CheckPermissionResponse =
  Permissionship :: CheckPermissionResponse_Permissionship

text \<open>\<open>r.spiceClient.CheckPermission(ctx, request)\<close>: the external service. It is a
  transition on the state \<open>'s\<close> of the outside world (the service, the network and the
  caller's context \<open>ctx\<close>), answering a request with an error \<open>Inl err\<close> (Go's
  \<open>err != nil\<close>) or with a response.\<close>

type_synonym ('s, 'e) spiceClient =
  "'s \<Rightarrow> CheckPermissionRequest \<Rightarrow> ('e + CheckPermissionResponse) \<times> 's"

section \<open>\<open>Query\<close>\<close>

text \<open>The retrieval loop (lines 44 to 48), with \<open>candidates\<close> as its accumulator.\<close>

fun retrievalLoop ::
  "(string \<Rightarrow> string) \<Rightarrow> string \<Rightarrow> Document list \<Rightarrow> Document list \<Rightarrow> Document list" where
  "retrievalLoop unicodeLower lq [] candidates = candidates"
| "retrievalLoop unicodeLower lq (d # ds) candidates =
     (if Contains (ToLower unicodeLower (Text d)) lq
      then retrievalLoop unicodeLower lq ds (candidates @ [d])
      else retrievalLoop unicodeLower lq ds candidates)"

text \<open>The retrieval pass (lines 40 to 48).\<close>

definition retrieve :: "(string \<Rightarrow> string) \<Rightarrow> Document list \<Rightarrow> string \<Rightarrow> Document list" where
  "retrieve unicodeLower ds query =
     (let lq = ToLower unicodeLower query in retrievalLoop unicodeLower lq ds [])"

text \<open>The filtering loop (lines 52 to 89), with \<open>allowed\<close> as its accumulator. Each
  \<open>continue\<close> is the recursive call on the remaining candidates; \<open>return nil, err\<close> is
  \<open>Inl err\<close>.\<close>

fun filterLoop ::
  "('s, 'e) spiceClient \<Rightarrow> RAGPipeline \<Rightarrow> string \<Rightarrow> Document list \<Rightarrow> Document list \<Rightarrow> 's
     \<Rightarrow> ('e + Document list) \<times> 's" where
  "filterLoop client r userID [] allowed s = (Inr allowed, s)"
| "filterLoop client r userID (d # ds) allowed s =
     (let spiceObj = lookupMeta (Metadata d) ''spicedb_object'' in
      if spiceObj = [] then filterLoop client r userID ds allowed s
      else
        (let parts = SplitN spiceObj '':'' 2 in
         if length parts \<noteq> 2 then filterLoop client r userID ds allowed s
         else
           (let objType = parts ! 0;
                objID = parts ! 1;
                res = \<lparr>ObjectType = objType, ObjectId = objID\<rparr>;
                subject = \<lparr>Object = \<lparr>ObjectType = ''user'', ObjectId = userID\<rparr>\<rparr>
            in case client s \<lparr>Resource = res, Permission = permission r, Subject = subject\<rparr> of
                 (Inl err, s') \<Rightarrow> (Inl err, s')
               | (Inr resp, s') \<Rightarrow>
                   if Permissionship resp = PERMISSIONSHIP_HAS_PERMISSION
                   then filterLoop client r userID ds (allowed @ [d]) s'
                   else filterLoop client r userID ds allowed s')))"

text \<open>\<open>Query\<close> (lines 39 to 92): the result, and the state the checks leave the outside
  world in.\<close>

definition Query ::
  "(string \<Rightarrow> string) \<Rightarrow> ('s, 'e) spiceClient \<Rightarrow> RAGPipeline \<Rightarrow> 's \<Rightarrow> string \<Rightarrow> string
     \<Rightarrow> ('e + Document list) \<times> 's" where
  "Query unicodeLower client r s userID query =
     (let candidates = retrieve unicodeLower (docs r) query
      in filterLoop client r userID candidates [] s)"

section \<open>Identity resolution, the check request and the observed collaborator\<close>

text \<open>Identity resolution is the first part of the body of the filtering loop (lines 53
  to 64): \<open>None\<close> where the loop reaches a \<open>continue\<close>, the pair \<open>(objType, objID)\<close>
  otherwise.\<close>

definition resolveIdentity :: "Document \<Rightarrow> (string \<times> string) option" where
  "resolveIdentity d =
     (let spiceObj = lookupMeta (Metadata d) ''spicedb_object'' in
      if spiceObj = [] then None
      else
        (let parts = SplitN spiceObj '':'' 2 in
         if length parts \<noteq> 2 then None
         else Some (parts ! 0, parts ! 1)))"

text \<open>The request the loop builds for a resolved identity (lines 66 to 81).\<close>

definition checkRequest :: "RAGPipeline \<Rightarrow> string \<Rightarrow> string \<Rightarrow> string \<Rightarrow> CheckPermissionRequest" where
  "checkRequest r userID objType objID =
     \<lparr>Resource = \<lparr>ObjectType = objType, ObjectId = objID\<rparr>,
      Permission = permission r,
      Subject = \<lparr>Object = \<lparr>ObjectType = ''user'', ObjectId = userID\<rparr>\<rparr>\<rparr>"

text \<open>A collaborator under observation: the same client, with every request it receives
  and the answer it gives appended to a log kept beside its state.\<close>

definition recording ::
  "('s, 'e) spiceClient
     \<Rightarrow> ('s \<times> (CheckPermissionRequest \<times> ('e + CheckPermissionResponse)) list, 'e) spiceClient" where
  "recording client = (\<lambda>(s, log) req.
     (case client s req of (answer, s') \<Rightarrow> (answer, (s', log @ [(req, answer)]))))"

text \<open>The log an observed run of the filtering loop adds, computed directly along the
  loop: one entry per check issued, up to and including the first that fails. It is a
  proof device; lemma \<open>filterLoop_recording\<close> shows it is what \<open>recording\<close> logs.\<close>

fun checksIssued ::
  "('s, 'e) spiceClient \<Rightarrow> RAGPipeline \<Rightarrow> string \<Rightarrow> Document list \<Rightarrow> 's
     \<Rightarrow> (CheckPermissionRequest \<times> ('e + CheckPermissionResponse)) list" where
  "checksIssued client r userID [] s = []"
| "checksIssued client r userID (d # ds) s =
     (case resolveIdentity d of
        None \<Rightarrow> checksIssued client r userID ds s
      | Some (objType, objID) \<Rightarrow>
          (case client s (checkRequest r userID objType objID) of
             (Inl err, s') \<Rightarrow> [(checkRequest r userID objType objID, Inl err)]
           | (Inr resp, s') \<Rightarrow>
               (checkRequest r userID objType objID, Inr resp) # checksIssued client r userID ds s'))"

text \<open>This predicate follows the words of claim C3, not the source: a reference value is
  malformed when it is "not exactly two colon-separated non-empty parts", that is, when
  cutting it at every colon does not give two parts, or gives an empty one.\<close>

definition malformedReference :: "string \<Rightarrow> bool" where
  "malformedReference v =
     (let parts = SplitN v '':'' (length v + 1)
      in length parts \<noteq> 2 \<or> [] \<in> set parts)"

section \<open>\<open>Query\<close> on the memory it runs on\<close>

text \<open>
  The model above takes the pipeline as a value. To state what a call leaves untouched, the
  same lines are modelled once more on the memory they run on: there \<open>append\<close> can write
  into an array that another slice shares, and the receiver object is part of the state
  the call returns.
\<close>

text \<open>A slice header: the backing array it points into (by address), the offset of its
  first element in that array, its length and its capacity.\<close>

record slice =
  Data :: nat
  Offset :: nat
  Len :: nat
  Cap :: nat

text \<open>\<open>var candidates []Document\<close> and \<open>var allowed []Document\<close>: the nil slice, of length and
  capacity 0.\<close>

definition nilSlice :: slice where
  "nilSlice = \<lparr>Data = 0, Offset = 0, Len = 0, Cap = 0\<rparr>"

text \<open>The object the receiver \<open>r\<close> points to; its \<open>docs\<close> field is a slice header, not the
  documents themselves.\<close>

record RAGPipelineObject =
  docsField :: slice
  resourceTypeField :: string
  permissionField :: string

text \<open>The memory a call runs on: the receiver object, the backing arrays by address, the
  number of addresses in use (an allocation takes the next one), and the outside world the
  client acts on.\<close>

record 's memory =
  receiver :: RAGPipelineObject
  arrays :: "nat \<Rightarrow> Document list"
  allocated :: nat
  outside :: 's

text \<open>\<open>s[i]\<close>, and the contents of a slice.\<close>

definition element :: "'s memory \<Rightarrow> slice \<Rightarrow> nat \<Rightarrow> Document" where
  "element m sl i = arrays m (Data sl) ! (Offset sl + i)"

definition elements :: "'s memory \<Rightarrow> slice \<Rightarrow> Document list" where
  "elements m sl = take (Len sl) (drop (Offset sl) (arrays m (Data sl)))"

text \<open>The zero value of \<open>Document\<close>, which fills the unused capacity of a new array.\<close>

definition zeroDocument :: Document where
  "zeroDocument = \<lparr>ID = [], Text = [], Metadata = Map.empty\<rparr>"

text \<open>\<open>append(s, d)\<close>. With spare capacity it writes \<open>d\<close> in place, into the backing array
  that other slices may share, and returns the longer header. Without, it copies the
  contents and \<open>d\<close> into a newly allocated array; the new capacity is the runtime's choice
  (the parameter \<open>growCap\<close>, applied to the old capacity), and at least the new length.\<close>

definition appendDocument ::
  "(nat \<Rightarrow> nat) \<Rightarrow> slice \<Rightarrow> Document \<Rightarrow> 's memory \<Rightarrow> slice \<times> 's memory" where
  "appendDocument growCap sl d m =
     (if Len sl < Cap sl
      then (sl\<lparr>Len := Len sl + 1\<rparr>,
            m\<lparr>arrays := (arrays m)(Data sl := (arrays m (Data sl))[Offset sl + Len sl := d])\<rparr>)
      else
        (let newCap = max (Len sl + 1) (growCap (Cap sl));
             a = allocated m
         in (\<lparr>Data = a, Offset = 0, Len = Len sl + 1, Cap = newCap\<rparr>,
             m\<lparr>arrays := (arrays m)
                    (a := elements m sl @ [d] @ replicate (newCap - (Len sl + 1)) zeroDocument),
               allocated := a + 1\<rparr>)))"

text \<open>The retrieval loop (lines 44 to 48) on memory. \<open>range r.docs\<close> evaluates the slice
  header once (\<open>sl\<close>); iteration \<open>i\<close> reads element \<open>i\<close> from memory as it is then; \<open>k\<close> is the
  number of iterations left.\<close>

fun retrievalLoopMem ::
  "(string \<Rightarrow> string) \<Rightarrow> (nat \<Rightarrow> nat) \<Rightarrow> string \<Rightarrow> slice \<Rightarrow> nat \<Rightarrow> nat \<Rightarrow> slice \<Rightarrow> 's memory
     \<Rightarrow> slice \<times> 's memory" where
  "retrievalLoopMem unicodeLower growCap lq sl i 0 candidates m = (candidates, m)"
| "retrievalLoopMem unicodeLower growCap lq sl i (Suc k) candidates m =
     (let d = element m sl i in
      if Contains (ToLower unicodeLower (Text d)) lq
      then (case appendDocument growCap candidates d m of
              (candidates', m') \<Rightarrow> retrievalLoopMem unicodeLower growCap lq sl (Suc i) k candidates' m')
      else retrievalLoopMem unicodeLower growCap lq sl (Suc i) k candidates m)"

text \<open>The filtering loop (lines 52 to 89) on memory. \<open>r.permission\<close> is read from the
  receiver object at each check. The client acts on the outside world only: it is given
  \<open>ctx\<close> and a request made of strings, no reference into the pipeline.\<close>

fun filterLoopMem ::
  "('s, 'e) spiceClient \<Rightarrow> (nat \<Rightarrow> nat) \<Rightarrow> string \<Rightarrow> slice \<Rightarrow> nat \<Rightarrow> nat \<Rightarrow> slice \<Rightarrow> 's memory
     \<Rightarrow> ('e + slice) \<times> 's memory" where
  "filterLoopMem client growCap userID sl i 0 allowed m = (Inr allowed, m)"
| "filterLoopMem client growCap userID sl i (Suc k) allowed m =
     (let d = element m sl i;
          spiceObj = lookupMeta (Metadata d) ''spicedb_object'' in
      if spiceObj = [] then filterLoopMem client growCap userID sl (Suc i) k allowed m
      else
        (let parts = SplitN spiceObj '':'' 2 in
         if length parts \<noteq> 2 then filterLoopMem client growCap userID sl (Suc i) k allowed m
         else
           (let objType = parts ! 0;
                objID = parts ! 1;
                res = \<lparr>ObjectType = objType, ObjectId = objID\<rparr>;
                subject = \<lparr>Object = \<lparr>ObjectType = ''user'', ObjectId = userID\<rparr>\<rparr>
            in case client (outside m)
                      \<lparr>Resource = res, Permission = permissionField (receiver m), Subject = subject\<rparr> of
                 (Inl err, s') \<Rightarrow> (Inl err, m\<lparr>outside := s'\<rparr>)
               | (Inr resp, s') \<Rightarrow>
                   if Permissionship resp = PERMISSIONSHIP_HAS_PERMISSION
                   then (case appendDocument growCap allowed d (m\<lparr>outside := s'\<rparr>) of
                           (allowed', m') \<Rightarrow>
                             filterLoopMem client growCap userID sl (Suc i) k allowed' m')
                   else filterLoopMem client growCap userID sl (Suc i) k allowed (m\<lparr>outside := s'\<rparr>))))"

text \<open>\<open>Query\<close> (lines 39 to 92) on memory: the error or the header of \<open>allowed\<close>, and the
  memory the call leaves.\<close>

definition QueryMem ::
  "(string \<Rightarrow> string) \<Rightarrow> (nat \<Rightarrow> nat) \<Rightarrow> ('s, 'e) spiceClient \<Rightarrow> 's memory \<Rightarrow> string \<Rightarrow> string
     \<Rightarrow> ('e + slice) \<times> 's memory" where
  "QueryMem unicodeLower growCap client m userID query =
     (let lq = ToLower unicodeLower query;
          ranged = docsField (receiver m)
      in case retrievalLoopMem unicodeLower growCap lq ranged 0 (Len ranged) nilSlice m of
           (candidates, m1) \<Rightarrow>
             filterLoopMem client growCap userID candidates 0 (Len candidates) nilSlice m1)"

text \<open>The pipeline value a memory holds: what the model above takes as its argument.\<close>

definition pipelineOf :: "'s memory \<Rightarrow> RAGPipeline" where
  "pipelineOf m =
     \<lparr>docs = elements m (docsField (receiver m)),
      resourceType = resourceTypeField (receiver m),
      permission = permissionField (receiver m)\<rparr>"

text \<open>A proof device: the slice \<open>sl\<close> is an accumulator whose backing array, if it has one,
  was allocated at or after address \<open>b\<close> and holds its whole capacity.\<close>

definition owned :: "nat \<Rightarrow> 's memory \<Rightarrow> slice \<Rightarrow> bool" where
  "owned b m sl =
     (b \<le> allocated m \<and> Len sl \<le> Cap sl \<and>
      (Cap sl = 0 \<or>
       (b \<le> Data sl \<and> Data sl < allocated m \<and> Offset sl + Cap sl \<le> length (arrays m (Data sl)))))"

section \<open>The data of the repository's test, and two fake collaborators\<close>

text \<open>The three documents of \<open>TestRAGWithSpiceDBPermissions\<close> and its pipeline.\<close>

definition doc1 :: Document where
  "doc1 = \<lparr>ID = ''doc1'', Text = ''Internal roadmap for 2025. Highly confidential.'',
           Metadata = [''spicedb_object'' \<mapsto> ''document:doc1'']\<rparr>"

definition doc2 :: Document where
  "doc2 = \<lparr>ID = ''doc2'', Text = ''Customer success playbook and escalation procedures.'',
           Metadata = [''spicedb_object'' \<mapsto> ''document:doc2'']\<rparr>"

definition doc3 :: Document where
  "doc3 = \<lparr>ID = ''doc3'', Text = ''Public FAQ for all users.'',
           Metadata = [''spicedb_object'' \<mapsto> ''document:doc3'']\<rparr>"

definition testPipeline :: RAGPipeline where
  "testPipeline = \<lparr>docs = [doc1, doc2, doc3], resourceType = ''document'', permission = ''read''\<rparr>"

text \<open>The relationships \<open>writeTestTuples\<close> seeds, as (resource type, resource id, relation,
  subject type, subject id), and a service that answers from them under the test's schema
  \<open>permission read = owner + viewer\<close>. It has no state and never fails.\<close>

definition testTuples :: "(string \<times> string \<times> string \<times> string \<times> string) list" where
  "testTuples =
     [(''document'', ''doc1'', ''owner'', ''user'', ''emilia''),
      (''document'', ''doc2'', ''viewer'', ''user'', ''beatrice''),
      (''document'', ''doc3'', ''viewer'', ''user'', ''emilia''),
      (''document'', ''doc3'', ''viewer'', ''user'', ''beatrice''),
      (''document'', ''doc3'', ''viewer'', ''user'', ''charlie'')]"

definition testService :: "(unit, string) spiceClient" where
  "testService s req =
     (let res = Resource req; sub = Object (Subject req);
          related = (\<lambda>rel. (ObjectType res, ObjectId res, rel, ObjectType sub, ObjectId sub)
                              \<in> set testTuples)
      in (Inr \<lparr>Permissionship =
                 (if Permission req = ''read'' \<and> (related ''owner'' \<or> related ''viewer'')
                  then PERMISSIONSHIP_HAS_PERMISSION else PERMISSIONSHIP_NO_PERMISSION)\<rparr>, s))"

text \<open>A scripted service: its state is the list of answers still to give, one per check,
  whatever the request; once the script is used up it answers "no permission".\<close>

definition scriptedService :: "(('e + CheckPermissionResponse) list, 'e) spiceClient" where
  "scriptedService s req =
     (case s of [] \<Rightarrow> (Inr \<lparr>Permissionship = PERMISSIONSHIP_NO_PERMISSION\<rparr>, [])
      | answer # rest \<Rightarrow> (answer, rest))"

text \<open>Two more documents, for the references the test does not exercise: one whose
  reference has a resource type and a colon but no resource id, and one with no metadata
  at all.\<close>

definition docNoId :: Document where
  "docNoId = \<lparr>ID = ''doc4'', Text = ''Public changelog.'',
              Metadata = [''spicedb_object'' \<mapsto> ''document:'']\<rparr>"

definition docNoRef :: Document where
  "docNoRef = \<lparr>ID = ''doc5'', Text = ''Public notes.'', Metadata = Map.empty\<rparr>"

text \<open>The Unicode casing of the Go runtime (\<open>unicode.ToLower\<close>, \<open>unicode.ToUpper\<close>) on the
  three sigma letters, in UTF-8: the capital U+03A3 (bytes CE A3), the small U+03C3 (CF 83)
  and the final small U+03C2 (CF 82). Lower-casing maps the capital to U+03C3 and leaves
  both small letters; upper-casing maps both small letters to the capital. Every other
  byte is left as it is: the two functions stand for Go's on strings of these letters
  only. \<open>docSigma\<close> is a document whose text is the final small sigma.\<close>

fun sigmaLower :: "string \<Rightarrow> string" where
  "sigmaLower (a # b # rest) =
     (if a = CHR 0xCE \<and> b = CHR 0xA3 then CHR 0xCF # CHR 0x83 # sigmaLower rest
      else a # sigmaLower (b # rest))"
| "sigmaLower s = s"

fun sigmaUpper :: "string \<Rightarrow> string" where
  "sigmaUpper (a # b # rest) =
     (if a = CHR 0xCF \<and> (b = CHR 0x82 \<or> b = CHR 0x83) then CHR 0xCE # CHR 0xA3 # sigmaUpper rest
      else a # sigmaUpper (b # rest))"
| "sigmaUpper s = s"

definition docSigma :: Document where
  "docSigma = \<lparr>ID = ''doc6'', Text = [CHR 0xCF, CHR 0x82],
               Metadata = [''spicedb_object'' \<mapsto> ''document:doc6'']\<rparr>"

text \<open>A growth policy for \<open>append\<close>, and a memory holding the test's pipeline: its three
  documents in the array at address 0, which \<open>r.docs\<close> spans.\<close>

definition doubleCap :: "nat \<Rightarrow> nat" where
  "doubleCap c = 2 * c"

definition testMemory :: "unit memory" where
  "testMemory =
     \<lparr>receiver = \<lparr>docsField = \<lparr>Data = 0, Offset = 0, Len = 3, Cap = 3\<rparr>,
                   resourceTypeField = ''document'', permissionField = ''read''\<rparr>,
      arrays = (\<lambda>a. if a = 0 then [doc1, doc2, doc3] else []),
      allocated = 1,
      outside = ()\<rparr>"

text \<open>The unicode lower-casing used where a concrete one is needed and every text and
  query is ASCII, so that it is never reached.\<close>

definition noUnicode :: "string \<Rightarrow> string" where
  "noUnicode s = s"

section \<open>Facts about the library functions\<close>

lemma HasPrefix_iff: "HasPrefix s pre \<longleftrightarrow> (\<exists>q. s = pre @ q)"
proof
  assume "HasPrefix s pre"
  then have "s = pre @ drop (length pre) s"
    by (metis HasPrefix_def append_take_drop_id)
  then show "\<exists>q. s = pre @ q" ..
next
  assume "\<exists>q. s = pre @ q"
  then show "HasPrefix s pre" by (auto simp: HasPrefix_def)
qed

lemma Index_lower: "- 1 \<le> Index s sub"
  by (induction s) (auto simp: Let_def)

lemma Index_nonneg_iff: "0 \<le> Index s sub \<longleftrightarrow> (\<exists>p q. s = p @ sub @ q)"
proof (induction s)
  case Nil
  then show ?case by auto
next
  case (Cons c cs)
  show ?case
  proof (cases "HasPrefix (c # cs) sub")
    case True
    then obtain q where "c # cs = sub @ q" by (auto simp: HasPrefix_iff)
    then have "c # cs = [] @ sub @ q" by simp
    then have "\<exists>p q. c # cs = p @ sub @ q" by blast
    with True show ?thesis by simp
  next
    case False
    have "(\<exists>p q. c # cs = p @ sub @ q) \<longleftrightarrow> (\<exists>p q. cs = p @ sub @ q)"
    proof
      assume "\<exists>p q. c # cs = p @ sub @ q"
      then obtain p q where pq: "c # cs = p @ sub @ q" by blast
      show "\<exists>p q. cs = p @ sub @ q"
      proof (cases p)
        case Nil
        with pq have "HasPrefix (c # cs) sub" by (auto simp: HasPrefix_iff)
        with False show ?thesis by simp
      next
        case (Cons a p')
        with pq have "cs = p' @ sub @ q" by simp
        then show ?thesis by blast
      qed
    next
      assume "\<exists>p q. cs = p @ sub @ q"
      then obtain p q where "cs = p @ sub @ q" by blast
      then have "c # cs = (c # p) @ sub @ q" by simp
      then show "\<exists>p q. c # cs = p @ sub @ q" by blast
    qed
    with False Cons.IH show ?thesis
      using Index_lower [of cs sub] by (auto simp: Let_def)
  qed
qed

lemma Contains_iff: "Contains s sub \<longleftrightarrow> (\<exists>p q. s = p @ sub @ q)"
  by (simp add: Contains_def Index_nonneg_iff)

lemma Contains_empty: "Contains s []"
proof -
  have "s = [] @ [] @ s" by simp
  then show ?thesis unfolding Contains_iff by blast
qed

lemma Index_single:
  "Index s [c] = (if c \<in> set s then int (length (takeWhile (\<lambda>x. x \<noteq> c) s)) else - 1)"
  by (induction s) (auto simp: HasPrefix_def Let_def)

lemma drop_takeWhile_tl: "drop (Suc (length (takeWhile P s))) s = tl (dropWhile P s)"
  by (induction s) auto

lemma take_takeWhile_length: "take (length (takeWhile P s)) s = takeWhile P s"
  by (induction s) auto

lemma SplitN_single_2:
  "SplitN s [c] 2 =
     (if c \<in> set s then [takeWhile (\<lambda>x. x \<noteq> c) s, tl (dropWhile (\<lambda>x. x \<noteq> c) s)] else [s])"
  by (simp add: numeral_2_eq_2 Index_single drop_takeWhile_tl take_takeWhile_length)

lemma takeWhile_first: "c \<notin> set before \<Longrightarrow> takeWhile (\<lambda>x. x \<noteq> c) (before @ c # after) = before"
  by (induction before) auto

lemma dropWhile_first: "c \<notin> set before \<Longrightarrow> dropWhile (\<lambda>x. x \<noteq> c) (before @ c # after) = c # after"
  by (induction before) auto

lemma split_at_first:
  "c \<in> set v \<Longrightarrow>
   v = takeWhile (\<lambda>x. x \<noteq> c) v @ c # tl (dropWhile (\<lambda>x. x \<noteq> c) v) \<and>
   c \<notin> set (takeWhile (\<lambda>x. x \<noteq> c) v)"
proof -
  assume "c \<in> set v"
  then have "dropWhile (\<lambda>x. x \<noteq> c) v \<noteq> []" by simp
  moreover have "hd (dropWhile (\<lambda>x. x \<noteq> c) v) = c"
    using \<open>c \<in> set v\<close> hd_dropWhile [of "\<lambda>x. x \<noteq> c" v] by simp
  ultimately have "dropWhile (\<lambda>x. x \<noteq> c) v = c # tl (dropWhile (\<lambda>x. x \<noteq> c) v)"
    by (cases "dropWhile (\<lambda>x. x \<noteq> c) v") simp_all
  then have "v = takeWhile (\<lambda>x. x \<noteq> c) v @ c # tl (dropWhile (\<lambda>x. x \<noteq> c) v)"
    by (metis takeWhile_dropWhile_id)
  moreover have "c \<notin> set (takeWhile (\<lambda>x. x \<noteq> c) v)"
    by (auto dest: set_takeWhileD)
  ultimately show ?thesis by simp
qed

lemma ToLower_empty: "ToLower u [] = []"
  by (simp add: ToLower_def isASCII_def)

section \<open>Facts about the two loops\<close>

lemma retrievalLoop_eq:
  "retrievalLoop u lq ds acc = acc @ filter (\<lambda>d. Contains (ToLower u (Text d)) lq) ds"
  by (induction ds arbitrary: acc) auto

lemma retrieve_eq:
  "retrieve u ds q = filter (\<lambda>d. Contains (ToLower u (Text d)) (ToLower u q)) ds"
  by (simp add: retrieve_def retrievalLoop_eq)

lemma retrieve_empty_query: "retrieve u ds [] = ds"
  by (simp add: retrieve_eq ToLower_empty Contains_empty)

lemma resolveIdentity_eq:
  "resolveIdentity d =
     (let v = lookupMeta (Metadata d) ''spicedb_object'' in
      if CHR '':'' \<in> set v
      then Some (takeWhile (\<lambda>x. x \<noteq> CHR '':'') v, tl (dropWhile (\<lambda>x. x \<noteq> CHR '':'') v))
      else None)"
  by (auto simp: resolveIdentity_def Let_def SplitN_single_2)

lemma resolveIdentity_None_iff:
  "resolveIdentity d = None \<longleftrightarrow> CHR '':'' \<notin> set (lookupMeta (Metadata d) ''spicedb_object'')"
  by (simp add: resolveIdentity_eq Let_def)

lemma filterLoop_Cons:
  "filterLoop client r userID (d # ds) allowed s =
     (case resolveIdentity d of
        None \<Rightarrow> filterLoop client r userID ds allowed s
      | Some (objType, objID) \<Rightarrow>
          (case client s (checkRequest r userID objType objID) of
             (Inl err, s') \<Rightarrow> (Inl err, s')
           | (Inr resp, s') \<Rightarrow>
               filterLoop client r userID ds
                 (if Permissionship resp = PERMISSIONSHIP_HAS_PERMISSION then allowed @ [d] else allowed) s'))"
  by (auto simp: resolveIdentity_def checkRequest_def Let_def split: prod.splits sum.splits)

text \<open>From here on the loop is unfolded through \<open>filterLoop_Cons\<close> only.\<close>

declare filterLoop.simps(2) [simp del]

lemma filterLoop_permission_only:
  "permission r1 = permission r2 \<Longrightarrow>
   filterLoop client r1 userID ds allowed s = filterLoop client r2 userID ds allowed s"
  by (induction ds arbitrary: allowed s)
     (simp_all add: filterLoop_Cons checkRequest_def split: option.splits prod.splits sum.splits)

lemma Query_permission_only:
  "permission r1 = permission r2 \<Longrightarrow> docs r1 = docs r2 \<Longrightarrow>
   Query u client r1 s userID query = Query u client r2 s userID query"
  using filterLoop_permission_only [of r1 r2] by (simp add: Query_def Let_def)

lemma filterLoop_subseq:
  "filterLoop client r userID ds allowed s = (Inr result, s') \<Longrightarrow>
   \<exists>zs. result = allowed @ zs \<and> subseq zs ds"
proof (induction ds arbitrary: allowed s)
  case Nil
  then show ?case by simp
next
  case (Cons d ds)
  show ?case
  proof (cases "resolveIdentity d")
    case None
    with Cons.prems have "filterLoop client r userID ds allowed s = (Inr result, s')"
      by (simp add: filterLoop_Cons)
    from Cons.IH [OF this] show ?thesis by auto
  next
    case (Some ident)
    obtain objType objID where ident: "ident = (objType, objID)" by (cases ident)
    obtain answer s1 where step: "client s (checkRequest r userID objType objID) = (answer, s1)"
      by (cases "client s (checkRequest r userID objType objID)")
    show ?thesis
    proof (cases answer)
      case (Inl e)
      with Some ident step Cons.prems show ?thesis
        by (simp add: filterLoop_Cons)
    next
      case (Inr resp)
      show ?thesis
      proof (cases "Permissionship resp = PERMISSIONSHIP_HAS_PERMISSION")
        case True
        with Inr Some ident step Cons.prems
        have "filterLoop client r userID ds (allowed @ [d]) s1 = (Inr result, s')"
          by (simp add: filterLoop_Cons)
        from Cons.IH [OF this] obtain zs where "result = (allowed @ [d]) @ zs" "subseq zs ds"
          by blast
        then have "result = allowed @ (d # zs) \<and> subseq (d # zs) (d # ds)" by simp
        then show ?thesis by blast
      next
        case False
        with Inr Some ident step Cons.prems
        have "filterLoop client r userID ds allowed s1 = (Inr result, s')"
          by (simp add: filterLoop_Cons)
        from Cons.IH [OF this] show ?thesis by auto
      qed
    qed
  qed
qed

lemma recording_apply:
  "client s req = (answer, s') \<Longrightarrow>
   recording client (s, log) req = (answer, (s', log @ [(req, answer)]))"
  by (simp add: recording_def)

lemma filterLoop_recording:
  "filterLoop (recording client) r userID ds allowed (s, log) =
     (fst (filterLoop client r userID ds allowed s),
      (snd (filterLoop client r userID ds allowed s), log @ checksIssued client r userID ds s))"
proof (induction ds arbitrary: allowed s log)
  case Nil
  show ?case by simp
next
  case (Cons d ds)
  show ?case
  proof (cases "resolveIdentity d")
    case None
    then show ?thesis by (simp add: filterLoop_Cons Cons.IH)
  next
    case (Some ident)
    obtain objType objID where ident: "ident = (objType, objID)" by (cases ident)
    obtain answer s1 where step: "client s (checkRequest r userID objType objID) = (answer, s1)"
      by (cases "client s (checkRequest r userID objType objID)")
    then have observed:
      "recording client (s, log) (checkRequest r userID objType objID) =
         (answer, (s1, log @ [(checkRequest r userID objType objID, answer)]))"
      by (rule recording_apply)
    show ?thesis
    proof (cases answer)
      case (Inl err)
      with Some ident step observed show ?thesis
        by (simp add: filterLoop_Cons)
    next
      case (Inr resp)
      with Some ident step observed show ?thesis
        by (simp add: filterLoop_Cons Cons.IH)
    qed
  qed
qed

lemma Query_recording:
  "Query u (recording client) r (s, log) userID query =
     (fst (Query u client r s userID query),
      (snd (Query u client r s userID query),
       log @ checksIssued client r userID (retrieve u (docs r) query) s))"
  by (simp add: Query_def Let_def filterLoop_recording)

lemma Query_recorded:
  assumes "Query u (recording client) r (s, []) userID query = (result, (s', log))"
  shows "result = fst (Query u client r s userID query)"
    and "result = fst (filterLoop client r userID (retrieve u (docs r) query) [] s)"
    and "log = checksIssued client r userID (retrieve u (docs r) query) s"
  using assms by (simp_all add: Query_recording) (simp add: Query_def Let_def)

lemma checksIssued_error_is_last:
  "n < length (checksIssued client r userID ds s) \<Longrightarrow>
   snd (checksIssued client r userID ds s ! n) = Inl err \<Longrightarrow>
   length (checksIssued client r userID ds s) = Suc n \<and>
   fst (filterLoop client r userID ds allowed s) = Inl err"
proof (induction ds arbitrary: n allowed s)
  case Nil
  then show ?case by simp
next
  case (Cons d ds)
  show ?case
  proof (cases "resolveIdentity d")
    case None
    with Cons show ?thesis by (simp add: filterLoop_Cons)
  next
    case (Some ident)
    obtain objType objID where ident: "ident = (objType, objID)" by (cases ident)
    obtain answer s1 where step: "client s (checkRequest r userID objType objID) = (answer, s1)"
      by (cases "client s (checkRequest r userID objType objID)")
    show ?thesis
    proof (cases answer)
      case (Inl e)
      with Some ident step Cons.prems show ?thesis
        by (simp add: filterLoop_Cons)
    next
      case (Inr resp)
      show ?thesis
      proof (cases n)
        case 0
        with Inr Some ident step Cons.prems show ?thesis by simp
      next
        case (Suc m)
        with Inr Some ident step Cons.prems Cons.IH [of m s1] show ?thesis
          by (simp add: filterLoop_Cons)
      qed
    qed
  qed
qed

lemma filterLoop_error_checked:
  "fst (filterLoop client r userID ds allowed s) = Inl err \<Longrightarrow>
   checksIssued client r userID ds s \<noteq> [] \<and>
   snd (last (checksIssued client r userID ds s)) = Inl err"
proof (induction ds arbitrary: allowed s)
  case Nil
  then show ?case by simp
next
  case (Cons d ds)
  show ?case
  proof (cases "resolveIdentity d")
    case None
    with Cons show ?thesis by (simp add: filterLoop_Cons)
  next
    case (Some ident)
    obtain objType objID where ident: "ident = (objType, objID)" by (cases ident)
    obtain answer s1 where step: "client s (checkRequest r userID objType objID) = (answer, s1)"
      by (cases "client s (checkRequest r userID objType objID)")
    show ?thesis
    proof (cases answer)
      case (Inl e)
      with Some ident step Cons.prems show ?thesis
        by (simp add: filterLoop_Cons)
    next
      case (Inr resp)
      with Some ident step Cons.prems
      have "fst (filterLoop client r userID ds
                  (if Permissionship resp = PERMISSIONSHIP_HAS_PERMISSION then allowed @ [d] else allowed) s1)
            = Inl err"
        by (simp add: filterLoop_Cons)
      from Cons.IH [OF this] Inr Some ident step show ?thesis by simp
    qed
  qed
qed

lemma filterLoop_ok_no_error:
  assumes "fst (filterLoop client r userID ds allowed s) = Inr result"
  shows "\<forall>x\<in>set (checksIssued client r userID ds s). \<not> isl (snd x)"
proof
  fix x
  assume "x \<in> set (checksIssued client r userID ds s)"
  then obtain n where n: "n < length (checksIssued client r userID ds s)"
    and x: "checksIssued client r userID ds s ! n = x"
    by (auto simp: in_set_conv_nth)
  show "\<not> isl (snd x)"
  proof
    assume "isl (snd x)"
    then obtain err where "snd x = Inl err" by (cases "snd x") simp_all
    with x have "snd (checksIssued client r userID ds s ! n) = Inl err" by simp
    from checksIssued_error_is_last [OF n this, of allowed] assms show False by simp
  qed
qed

lemma checksIssued_requests:
  "n < length (checksIssued client r userID ds s) \<Longrightarrow>
   n < length (filter (\<lambda>d. resolveIdentity d \<noteq> None) ds) \<and>
   (\<exists>objType objID.
      resolveIdentity (filter (\<lambda>d. resolveIdentity d \<noteq> None) ds ! n) = Some (objType, objID) \<and>
      fst (checksIssued client r userID ds s ! n) = checkRequest r userID objType objID)"
proof (induction ds arbitrary: n s)
  case Nil
  then show ?case by simp
next
  case (Cons d ds)
  show ?case
  proof (cases "resolveIdentity d")
    case None
    with Cons show ?thesis by simp
  next
    case (Some ident)
    obtain objType objID where ident: "ident = (objType, objID)" by (cases ident)
    obtain answer s1 where step: "client s (checkRequest r userID objType objID) = (answer, s1)"
      by (cases "client s (checkRequest r userID objType objID)")
    show ?thesis
    proof (cases n)
      case 0
      with Some ident step show ?thesis by (cases answer) simp_all
    next
      case (Suc m)
      show ?thesis
      proof (cases answer)
        case (Inl e)
        with Some ident step Suc Cons.prems show ?thesis by simp
      next
        case (Inr resp)
        with Some ident step Suc Cons.prems Cons.IH [of m s1] show ?thesis by simp
      qed
    qed
  qed
qed

lemma filterLoop_no_error:
  "\<forall>x\<in>set (checksIssued client r userID ds s). \<not> isl (snd x) \<Longrightarrow>
   length (checksIssued client r userID ds s) = length (filter (\<lambda>d. resolveIdentity d \<noteq> None) ds) \<and>
   fst (filterLoop client r userID ds allowed s) =
     Inr (allowed @ map fst (filter
            (\<lambda>(d, x). \<exists>resp. snd x = Inr resp \<and> Permissionship resp = PERMISSIONSHIP_HAS_PERMISSION)
            (zip (filter (\<lambda>d. resolveIdentity d \<noteq> None) ds) (checksIssued client r userID ds s))))"
proof (induction ds arbitrary: allowed s)
  case Nil
  then show ?case by simp
next
  case (Cons d ds)
  show ?case
  proof (cases "resolveIdentity d")
    case None
    with Cons show ?thesis by (simp add: filterLoop_Cons)
  next
    case (Some ident)
    obtain objType objID where ident: "ident = (objType, objID)" by (cases ident)
    obtain answer s1 where step: "client s (checkRequest r userID objType objID) = (answer, s1)"
      by (cases "client s (checkRequest r userID objType objID)")
    show ?thesis
    proof (cases answer)
      case (Inl e)
      with Some ident step Cons.prems show ?thesis by simp
    next
      case (Inr resp)
      with Some ident step Cons.prems
      have "\<forall>x\<in>set (checksIssued client r userID ds s1). \<not> isl (snd x)" by simp
      from Cons.IH [OF this] Inr Some ident step show ?thesis
        by (simp add: filterLoop_Cons)
    qed
  qed
qed

lemma filterLoop_result_resolved:
  assumes "fst (filterLoop client r userID ds [] s) = Inr result" and "d \<in> set result"
  shows "d \<in> set ds \<and> resolveIdentity d \<noteq> None"
proof -
  from filterLoop_no_error [OF filterLoop_ok_no_error [OF assms(1)], of "[]"] assms(1)
  have "result = map fst (filter
            (\<lambda>(d, x). \<exists>resp. snd x = Inr resp \<and> Permissionship resp = PERMISSIONSHIP_HAS_PERMISSION)
            (zip (filter (\<lambda>d. resolveIdentity d \<noteq> None) ds) (checksIssued client r userID ds s)))"
    by simp
  with assms(2) obtain x where
    "(d, x) \<in> set (zip (filter (\<lambda>d. resolveIdentity d \<noteq> None) ds) (checksIssued client r userID ds s))"
    by auto
  then have "d \<in> set (filter (\<lambda>d. resolveIdentity d \<noteq> None) ds)"
    by (rule set_zip_leftD)
  then show ?thesis by simp
qed

lemma filterLoop_same_answers:
  "\<forall>n. n < length (checksIssued client1 r userID ds s1) \<longrightarrow>
       n < length (checksIssued client2 r userID ds s2) \<longrightarrow>
       snd (checksIssued client1 r userID ds s1 ! n) = snd (checksIssued client2 r userID ds s2 ! n) \<Longrightarrow>
   fst (filterLoop client1 r userID ds allowed s1) = fst (filterLoop client2 r userID ds allowed s2) \<and>
   checksIssued client1 r userID ds s1 = checksIssued client2 r userID ds s2"
proof (induction ds arbitrary: allowed s1 s2)
  case Nil
  then show ?case by simp
next
  case (Cons d ds)
  show ?case
  proof (cases "resolveIdentity d")
    case None
    with Cons show ?thesis by (simp add: filterLoop_Cons)
  next
    case (Some ident)
    obtain objType objID where ident: "ident = (objType, objID)" by (cases ident)
    obtain answer1 t1 where step1: "client1 s1 (checkRequest r userID objType objID) = (answer1, t1)"
      by (cases "client1 s1 (checkRequest r userID objType objID)")
    obtain answer2 t2 where step2: "client2 s2 (checkRequest r userID objType objID) = (answer2, t2)"
      by (cases "client2 s2 (checkRequest r userID objType objID)")
    have first: "checksIssued client1 r userID (d # ds) s1 \<noteq> [] \<and>
                 checksIssued client2 r userID (d # ds) s2 \<noteq> [] \<and>
                 snd (checksIssued client1 r userID (d # ds) s1 ! 0) = answer1 \<and>
                 snd (checksIssued client2 r userID (d # ds) s2 ! 0) = answer2"
      using Some ident step1 step2 by (cases answer1; cases answer2) simp_all
    with Cons.prems have "answer1 = answer2" by (metis length_greater_0_conv)
    with step2 have step2': "client2 s2 (checkRequest r userID objType objID) = (answer1, t2)"
      by simp
    show ?thesis
    proof (cases answer1)
      case (Inl e)
      with Some ident step1 step2' show ?thesis by (simp add: filterLoop_Cons)
    next
      case (Inr resp)
      have "\<forall>n. n < length (checksIssued client1 r userID ds t1) \<longrightarrow>
                n < length (checksIssued client2 r userID ds t2) \<longrightarrow>
                snd (checksIssued client1 r userID ds t1 ! n) = snd (checksIssued client2 r userID ds t2 ! n)"
      proof (intro allI impI)
        fix n
        assume "n < length (checksIssued client1 r userID ds t1)"
          and "n < length (checksIssued client2 r userID ds t2)"
        with Cons.prems [rule_format, of "Suc n"] Inr Some ident step1 step2'
        show "snd (checksIssued client1 r userID ds t1 ! n) = snd (checksIssued client2 r userID ds t2 ! n)"
          by simp
      qed
      from Cons.IH [OF this] Inr Some ident step1 step2' show ?thesis
        by (simp add: filterLoop_Cons)
    qed
  qed
qed

section \<open>The test data, evaluated\<close>

lemma docs_testPipeline: "docs testPipeline = [doc1, doc2, doc3]"
  by (simp add: testPipeline_def)

lemma resolveIdentity_doc1: "resolveIdentity doc1 = Some (''document'', ''doc1'')"
  by (simp add: resolveIdentity_eq doc1_def lookupMeta_def)

lemma resolveIdentity_doc2: "resolveIdentity doc2 = Some (''document'', ''doc2'')"
  by (simp add: resolveIdentity_eq doc2_def lookupMeta_def)

lemma resolveIdentity_doc3: "resolveIdentity doc3 = Some (''document'', ''doc3'')"
  by (simp add: resolveIdentity_eq doc3_def lookupMeta_def)

lemmas resolveIdentity_docs = resolveIdentity_doc1 resolveIdentity_doc2 resolveIdentity_doc3

lemma resolveIdentity_docNoId: "resolveIdentity docNoId = Some (''document'', [])"
  by (simp add: resolveIdentity_eq docNoId_def lookupMeta_def)

lemma malformed_docNoId: "malformedReference (lookupMeta (Metadata docNoId) ''spicedb_object'')"
  by (simp add: docNoId_def lookupMeta_def) code_simp

lemma testService_beatrice:
  "testService () (checkRequest testPipeline ''beatrice'' ''document'' ''doc1'') =
     (Inr \<lparr>Permissionship = PERMISSIONSHIP_NO_PERMISSION\<rparr>, ())"
  "testService () (checkRequest testPipeline ''beatrice'' ''document'' ''doc2'') =
     (Inr \<lparr>Permissionship = PERMISSIONSHIP_HAS_PERMISSION\<rparr>, ())"
  "testService () (checkRequest testPipeline ''beatrice'' ''document'' ''doc3'') =
     (Inr \<lparr>Permissionship = PERMISSIONSHIP_HAS_PERMISSION\<rparr>, ())"
  by (simp_all add: testService_def checkRequest_def testTuples_def testPipeline_def)

lemma testService_charlie:
  "testService () (checkRequest testPipeline ''charlie'' ''document'' ''doc1'') =
     (Inr \<lparr>Permissionship = PERMISSIONSHIP_NO_PERMISSION\<rparr>, ())"
  "testService () (checkRequest testPipeline ''charlie'' ''document'' ''doc2'') =
     (Inr \<lparr>Permissionship = PERMISSIONSHIP_NO_PERMISSION\<rparr>, ())"
  "testService () (checkRequest testPipeline ''charlie'' ''document'' ''doc3'') =
     (Inr \<lparr>Permissionship = PERMISSIONSHIP_HAS_PERMISSION\<rparr>, ())"
  by (simp_all add: testService_def checkRequest_def testTuples_def testPipeline_def)

lemma scriptedService_step:
  "scriptedService (answer # rest) req = (answer, rest)"
  "scriptedService [] req = (Inr \<lparr>Permissionship = PERMISSIONSHIP_NO_PERMISSION\<rparr>, [])"
  by (simp_all add: scriptedService_def)

lemma contains_roadmap:
  "Contains (ToLower noUnicode (Text doc1)) (ToLower noUnicode ''ROADMAP'')"
  "\<not> Contains (ToLower noUnicode (Text doc2)) (ToLower noUnicode ''ROADMAP'')"
  "\<not> Contains (ToLower noUnicode (Text doc3)) (ToLower noUnicode ''ROADMAP'')"
  by (simp_all add: doc1_def doc2_def doc3_def) code_simp+

lemma isASCII_roadmap: "isASCII ''ROADMAP''" "isASCII ''roadmap''"
  "map lowerByte ''ROADMAP'' = map lowerByte ''roadmap''"
  by code_simp+

lemma contains_public:
  "Contains (ToLower noUnicode (Text docNoId)) (ToLower noUnicode ''public'')"
  "Contains (ToLower noUnicode (Text docNoRef)) (ToLower noUnicode ''public'')"
  "Contains (ToLower noUnicode (Text doc3)) (ToLower noUnicode ''public'')"
  by (simp_all add: docNoId_def docNoRef_def doc3_def) code_simp+

lemma Query_beatrice_all:
  "Query noUnicode testService testPipeline () ''beatrice'' [] = (Inr [doc2, doc3], ())"
  by (simp add: Query_def retrieve_empty_query docs_testPipeline filterLoop_Cons
        resolveIdentity_docs testService_beatrice)

lemma Query_charlie_all:
  "Query noUnicode testService testPipeline () ''charlie'' [] = (Inr [doc3], ())"
  by (simp add: Query_def retrieve_empty_query docs_testPipeline filterLoop_Cons
        resolveIdentity_docs testService_charlie)

lemma Query_noRef:
  "Query noUnicode scriptedService
     \<lparr>docs = [docNoRef, doc3], resourceType = ''document'', permission = ''read''\<rparr>
     [Inr \<lparr>Permissionship = PERMISSIONSHIP_HAS_PERMISSION\<rparr> :: string + CheckPermissionResponse]
     ''charlie'' ''public'' =
   (Inr [doc3], [])"
proof -
  have "resolveIdentity docNoRef = None"
    by (simp add: resolveIdentity_eq docNoRef_def lookupMeta_def)
  then show ?thesis
    by (simp add: Query_def retrieve_eq contains_public filterLoop_Cons
          resolveIdentity_doc3 scriptedService_step)
qed

lemma observed_charlie:
  "Query noUnicode (recording testService) testPipeline ((), []) ''charlie'' [] =
   (Inr [doc3],
    ((), [(checkRequest testPipeline ''charlie'' ''document'' ''doc1'',
             Inr \<lparr>Permissionship = PERMISSIONSHIP_NO_PERMISSION\<rparr>),
          (checkRequest testPipeline ''charlie'' ''document'' ''doc2'',
             Inr \<lparr>Permissionship = PERMISSIONSHIP_NO_PERMISSION\<rparr>),
          (checkRequest testPipeline ''charlie'' ''document'' ''doc3'',
             Inr \<lparr>Permissionship = PERMISSIONSHIP_HAS_PERMISSION\<rparr>)]))"
  by (subst Query_recording)
     (simp add: Query_def retrieve_empty_query docs_testPipeline filterLoop_Cons
        resolveIdentity_docs testService_charlie)

lemma scripted_charlie:
  "Query noUnicode (recording scriptedService) testPipeline
     ([Inr \<lparr>Permissionship = PERMISSIONSHIP_NO_PERMISSION\<rparr>,
       Inr \<lparr>Permissionship = PERMISSIONSHIP_NO_PERMISSION\<rparr>,
       Inr \<lparr>Permissionship = PERMISSIONSHIP_HAS_PERMISSION\<rparr>], [])
     ''charlie'' [] =
   (Inr [doc3],
    ([], [(checkRequest testPipeline ''charlie'' ''document'' ''doc1'',
             Inr \<lparr>Permissionship = PERMISSIONSHIP_NO_PERMISSION\<rparr> :: string + CheckPermissionResponse),
          (checkRequest testPipeline ''charlie'' ''document'' ''doc2'',
             Inr \<lparr>Permissionship = PERMISSIONSHIP_NO_PERMISSION\<rparr>),
          (checkRequest testPipeline ''charlie'' ''document'' ''doc3'',
             Inr \<lparr>Permissionship = PERMISSIONSHIP_HAS_PERMISSION\<rparr>)]))"
  by (subst Query_recording)
     (simp add: Query_def retrieve_empty_query docs_testPipeline filterLoop_Cons
        resolveIdentity_docs scriptedService_step)

lemma scripted_emilia_failure:
  "Query noUnicode (recording scriptedService) testPipeline
     ([Inr \<lparr>Permissionship = PERMISSIONSHIP_HAS_PERMISSION\<rparr>, Inl ''unavailable''], [])
     ''emilia'' [] =
   (Inl ''unavailable'',
    ([], [(checkRequest testPipeline ''emilia'' ''document'' ''doc1'',
             Inr \<lparr>Permissionship = PERMISSIONSHIP_HAS_PERMISSION\<rparr>),
          (checkRequest testPipeline ''emilia'' ''document'' ''doc2'', Inl ''unavailable'')]))"
  by (subst Query_recording)
     (simp add: Query_def retrieve_empty_query docs_testPipeline filterLoop_Cons
        resolveIdentity_docs scriptedService_step)

lemma scripted_emilia_other_answers:
  "Query noUnicode (recording scriptedService) testPipeline
     ([Inr \<lparr>Permissionship = PERMISSIONSHIP_CONDITIONAL_PERMISSION\<rparr>,
       Inr \<lparr>Permissionship = PERMISSIONSHIP_UNSPECIFIED\<rparr>,
       Inr \<lparr>Permissionship = PERMISSIONSHIP_HAS_PERMISSION\<rparr>], [])
     ''emilia'' [] =
   (Inr [doc3],
    ([], [(checkRequest testPipeline ''emilia'' ''document'' ''doc1'',
             Inr \<lparr>Permissionship = PERMISSIONSHIP_CONDITIONAL_PERMISSION\<rparr> :: string + CheckPermissionResponse),
          (checkRequest testPipeline ''emilia'' ''document'' ''doc2'',
             Inr \<lparr>Permissionship = PERMISSIONSHIP_UNSPECIFIED\<rparr>),
          (checkRequest testPipeline ''emilia'' ''document'' ''doc3'',
             Inr \<lparr>Permissionship = PERMISSIONSHIP_HAS_PERMISSION\<rparr>)]))"
  by (subst Query_recording)
     (simp add: Query_def retrieve_empty_query docs_testPipeline filterLoop_Cons
        resolveIdentity_docs scriptedService_step)

section \<open>Facts about \<open>Query\<close> on memory\<close>

lemma owned_nilSlice: "owned (allocated m) m nilSlice"
  by (simp add: owned_def nilSlice_def)

lemma elements_nilSlice: "elements m nilSlice = []"
  by (simp add: elements_def nilSlice_def)

lemma owned_length_elements: "owned b m sl \<Longrightarrow> length (elements m sl) = Len sl"
  by (auto simp: owned_def elements_def)

lemma owned_outside: "owned b (m\<lparr>outside := s\<rparr>) sl = owned b m sl"
  by (simp add: owned_def)

lemma elements_outside: "elements (m\<lparr>outside := s\<rparr>) sl = elements m sl"
  by (simp add: elements_def)

lemma element_outside: "element (m\<lparr>outside := s\<rparr>) sl i = element m sl i"
  by (simp add: element_def)

lemma take_drop_update:
  "n + k < length xs \<Longrightarrow> take (Suc k) (drop n (xs[n + k := d])) = take k (drop n xs) @ [d]"
proof -
  assume inside: "n + k < length xs"
  have "drop n (xs[n + k := d]) = (drop n xs)[k := d]"
    by (simp add: drop_update_swap)
  moreover from inside have "k < length (drop n xs)" by simp
  ultimately show ?thesis
    by (simp add: take_Suc_conv_app_nth)
qed

lemma appendDocument_owned:
  assumes "owned b m acc" and "appendDocument g acc d m = (acc', m')"
  shows "owned b m' acc' \<and> (\<forall>a<b. arrays m' a = arrays m a) \<and> receiver m' = receiver m \<and>
         outside m' = outside m \<and> allocated m \<le> allocated m' \<and>
         elements m' acc' = elements m acc @ [d]"
proof (cases "Len acc < Cap acc")
  case True
  with assms(1) have inside: "Offset acc + Len acc < length (arrays m (Data acc))"
    and mine: "b \<le> Data acc" "Data acc < allocated m" "b \<le> allocated m"
    and room: "Offset acc + Cap acc \<le> length (arrays m (Data acc))"
    by (auto simp: owned_def)
  from True assms(2) have acc': "acc' = acc\<lparr>Len := Len acc + 1\<rparr>"
    and m': "m' = m\<lparr>arrays := (arrays m)(Data acc := (arrays m (Data acc))[Offset acc + Len acc := d])\<rparr>"
    by (simp_all add: appendDocument_def)
  from True mine room have "owned b m' acc'"
    by (simp add: owned_def acc' m')
  moreover from mine have "\<forall>a<b. arrays m' a = arrays m a" by (simp add: m')
  moreover from inside have "elements m' acc' = elements m acc @ [d]"
    by (simp add: elements_def acc' m' take_drop_update)
  ultimately show ?thesis by (simp add: m')
next
  case False
  let ?newCap = "max (Len acc + 1) (g (Cap acc))"
  from False assms(2)
  have acc': "acc' = \<lparr>Data = allocated m, Offset = 0, Len = Len acc + 1, Cap = ?newCap\<rparr>"
    and m': "m' = m\<lparr>arrays := (arrays m)
                    (allocated m := elements m acc @ [d] @ replicate (?newCap - (Len acc + 1)) zeroDocument),
                  allocated := allocated m + 1\<rparr>"
    by (simp_all add: appendDocument_def Let_def)
  from assms(1) have below: "b \<le> allocated m" by (simp add: owned_def)
  have len: "length (elements m acc) = Len acc"
    using assms(1) by (rule owned_length_elements)
  from below len have "owned b m' acc'"
    by (simp add: owned_def acc' m')
  moreover from below have "\<forall>a<b. arrays m' a = arrays m a" by (simp add: m')
  moreover from len have "elements m' acc' = elements m acc @ [d]"
    by (simp add: elements_def acc' m')
  ultimately show ?thesis by (simp add: m')
qed

lemma retrievalLoopMem_frame:
  "owned b m acc \<Longrightarrow> retrievalLoopMem u g lq sl i k acc m = (acc', m') \<Longrightarrow>
   owned b m' acc' \<and> (\<forall>a<b. arrays m' a = arrays m a) \<and> receiver m' = receiver m \<and>
   outside m' = outside m \<and> allocated m \<le> allocated m'"
proof (induction k arbitrary: i acc m)
  case 0
  then show ?case by simp
next
  case (Suc k)
  show ?case
  proof (cases "Contains (ToLower u (Text (element m sl i))) lq")
    case False
    with Suc.prems Suc.IH [of m acc "Suc i"] show ?thesis by simp
  next
    case True
    obtain acc1 m1 where step: "appendDocument g acc (element m sl i) m = (acc1, m1)"
      by (cases "appendDocument g acc (element m sl i) m")
    from appendDocument_owned [OF Suc.prems(1) step]
    have one: "owned b m1 acc1" "\<forall>a<b. arrays m1 a = arrays m a" "receiver m1 = receiver m"
      "outside m1 = outside m" "allocated m \<le> allocated m1"
      by simp_all
    from True step Suc.prems(2)
    have "retrievalLoopMem u g lq sl (Suc i) k acc1 m1 = (acc', m')" by simp
    from Suc.IH [OF one(1) this] one show ?thesis by simp
  qed
qed

lemma element_stable:
  "\<forall>a<b. arrays m1 a = arrays m a \<Longrightarrow> Data sl < b \<Longrightarrow> element m1 sl j = element m sl j"
  by (simp add: element_def)

lemma retrievalLoopMem_elements:
  "owned b m acc \<Longrightarrow> Data sl < b \<Longrightarrow> retrievalLoopMem u g lq sl i k acc m = (acc', m') \<Longrightarrow>
   elements m' acc' =
     elements m acc @ filter (\<lambda>d. Contains (ToLower u (Text d)) lq) (map (element m sl) [i..<i + k])"
proof (induction k arbitrary: i acc m)
  case 0
  then show ?case by simp
next
  case (Suc k)
  have range: "[i..<i + Suc k] = i # [Suc i..<Suc i + k]"
    by (simp add: upt_rec)
  show ?case
  proof (cases "Contains (ToLower u (Text (element m sl i))) lq")
    case False
    with Suc.prems Suc.IH [of m acc "Suc i"] range show ?thesis by simp
  next
    case True
    obtain acc1 m1 where step: "appendDocument g acc (element m sl i) m = (acc1, m1)"
      by (cases "appendDocument g acc (element m sl i) m")
    from appendDocument_owned [OF Suc.prems(1) step]
    have one: "owned b m1 acc1" "\<forall>a<b. arrays m1 a = arrays m a"
      "elements m1 acc1 = elements m acc @ [element m sl i]"
      by simp_all
    from one(2) Suc.prems(2) have same: "element m1 sl = element m sl"
      by (auto simp: element_def)
    from True step Suc.prems(3)
    have "retrievalLoopMem u g lq sl (Suc i) k acc1 m1 = (acc', m')" by simp
    from Suc.IH [OF one(1) Suc.prems(2) this] one(3) same True range show ?thesis by simp
  qed
qed

lemma map_element_elements:
  "Offset sl + Len sl \<le> length (arrays m (Data sl)) \<Longrightarrow>
   map (element m sl) [0..<Len sl] = elements m sl"
  by (rule nth_equalityI) (simp_all add: element_def elements_def)


lemma filterLoopMem_Suc:
  assumes "permission r = permissionField (receiver m)"
  shows "filterLoopMem client g userID sl i (Suc k) allowed m =
     (case resolveIdentity (element m sl i) of
        None \<Rightarrow> filterLoopMem client g userID sl (Suc i) k allowed m
      | Some (objType, objID) \<Rightarrow>
          (case client (outside m) (checkRequest r userID objType objID) of
             (Inl err, s') \<Rightarrow> (Inl err, m\<lparr>outside := s'\<rparr>)
           | (Inr resp, s') \<Rightarrow>
               if Permissionship resp = PERMISSIONSHIP_HAS_PERMISSION
               then (case appendDocument g allowed (element m sl i) (m\<lparr>outside := s'\<rparr>) of
                       (allowed', m') \<Rightarrow> filterLoopMem client g userID sl (Suc i) k allowed' m')
               else filterLoopMem client g userID sl (Suc i) k allowed (m\<lparr>outside := s'\<rparr>)))"
  using assms
  by (auto simp: resolveIdentity_def checkRequest_def Let_def split: prod.splits sum.splits)

declare filterLoopMem.simps(2) [simp del]

lemma filterLoopMem_frame:
  "owned b m acc \<Longrightarrow> filterLoopMem client g userID sl i k acc m = (res, m') \<Longrightarrow>
   (\<forall>a<b. arrays m' a = arrays m a) \<and> receiver m' = receiver m \<and> allocated m \<le> allocated m'"
proof (induction k arbitrary: i acc m)
  case 0
  then show ?case by simp
next
  case (Suc k)
  let ?d = "element m sl i"
  let ?r = "\<lparr>docs = [], resourceType = [], permission = permissionField (receiver m)\<rparr>"
  note unfold = filterLoopMem_Suc [of ?r m client g userID sl i k acc, simplified]
  show ?case
  proof (cases "resolveIdentity ?d")
    case None
    with Suc.prems unfold have "filterLoopMem client g userID sl (Suc i) k acc m = (res, m')"
      by simp
    from Suc.IH [OF Suc.prems(1) this] show ?thesis .
  next
    case (Some ident)
    obtain objType objID where ident: "ident = (objType, objID)" by (cases ident)
    obtain answer s1 where step: "client (outside m) (checkRequest ?r userID objType objID) = (answer, s1)"
      by (cases "client (outside m) (checkRequest ?r userID objType objID)")
    show ?thesis
    proof (cases answer)
      case (Inl err)
      with Some ident step Suc.prems unfold show ?thesis by auto
    next
      case (Inr resp)
      show ?thesis
      proof (cases "Permissionship resp = PERMISSIONSHIP_HAS_PERMISSION")
        case False
        with Inr Some ident step Suc.prems unfold
        have run: "filterLoopMem client g userID sl (Suc i) k acc (m\<lparr>outside := s1\<rparr>) = (res, m')"
          by simp
        from Suc.prems(1) have "owned b (m\<lparr>outside := s1\<rparr>) acc" by (simp add: owned_outside)
        from Suc.IH [OF this run] show ?thesis by simp
      next
        case True
        obtain acc1 m1 where app: "appendDocument g acc ?d (m\<lparr>outside := s1\<rparr>) = (acc1, m1)"
          by (cases "appendDocument g acc ?d (m\<lparr>outside := s1\<rparr>)")
        from Suc.prems(1) have "owned b (m\<lparr>outside := s1\<rparr>) acc" by (simp add: owned_outside)
        from appendDocument_owned [OF this app]
        have one: "owned b m1 acc1" "\<forall>a<b. arrays m1 a = arrays m a" "receiver m1 = receiver m"
          "allocated m \<le> allocated m1"
          by simp_all
        from True Inr Some ident step app Suc.prems unfold
        have "filterLoopMem client g userID sl (Suc i) k acc1 m1 = (res, m')" by simp
        from Suc.IH [OF one(1) this] one show ?thesis by simp
      qed
    qed
  qed
qed

lemma filterLoopMem_refines:
  "owned b m acc \<Longrightarrow> k = 0 \<or> Data sl < b \<Longrightarrow> permission r = permissionField (receiver m) \<Longrightarrow>
   filterLoopMem client g userID sl i k acc m = (res, m') \<Longrightarrow>
   map_sum id (elements m') res =
     fst (filterLoop client r userID (map (element m sl) [i..<i + k]) (elements m acc) (outside m)) \<and>
   outside m' =
     snd (filterLoop client r userID (map (element m sl) [i..<i + k]) (elements m acc) (outside m))"
proof (induction k arbitrary: i acc m)
  case 0
  then show ?case by auto
next
  case (Suc k)
  let ?d = "element m sl i"
  have range: "[i..<i + Suc k] = i # [Suc i..<Suc i + k]"
    by (simp add: upt_rec)
  from Suc.prems(2) have reads: "Data sl < b" by simp
  note unfold = filterLoopMem_Suc [OF Suc.prems(3), of client g userID sl i k acc]
  show ?case
  proof (cases "resolveIdentity ?d")
    case None
    with Suc.prems unfold have "filterLoopMem client g userID sl (Suc i) k acc m = (res, m')"
      by simp
    from Suc.IH [OF Suc.prems(1) _ Suc.prems(3) this] reads None range show ?thesis
      by (simp add: filterLoop_Cons)
  next
    case (Some ident)
    obtain objType objID where ident: "ident = (objType, objID)" by (cases ident)
    obtain answer s1 where step: "client (outside m) (checkRequest r userID objType objID) = (answer, s1)"
      by (cases "client (outside m) (checkRequest r userID objType objID)")
    show ?thesis
    proof (cases answer)
      case (Inl err)
      with Some ident step Suc.prems unfold range show ?thesis
        by (auto simp: filterLoop_Cons)
    next
      case (Inr resp)
      have owned1: "owned b (m\<lparr>outside := s1\<rparr>) acc"
        using Suc.prems(1) by (simp add: owned_outside)
      show ?thesis
      proof (cases "Permissionship resp = PERMISSIONSHIP_HAS_PERMISSION")
        case False
        with Inr Some ident step Suc.prems unfold
        have run: "filterLoopMem client g userID sl (Suc i) k acc (m\<lparr>outside := s1\<rparr>) = (res, m')"
          by simp
        have perm: "permission r = permissionField (receiver (m\<lparr>outside := s1\<rparr>))"
          using Suc.prems(3) by simp
        from Suc.IH [OF owned1 _ perm run] reads False Inr Some ident step range show ?thesis
          by (simp add: filterLoop_Cons elements_outside element_outside [abs_def])
      next
        case True
        obtain acc1 m1 where app: "appendDocument g acc ?d (m\<lparr>outside := s1\<rparr>) = (acc1, m1)"
          by (cases "appendDocument g acc ?d (m\<lparr>outside := s1\<rparr>)")
        from appendDocument_owned [OF owned1 app]
        have one: "owned b m1 acc1" "\<forall>a<b. arrays m1 a = arrays m a" "receiver m1 = receiver m"
          "outside m1 = s1" "elements m1 acc1 = elements m acc @ [?d]"
          by (simp_all add: elements_outside)
        from one(2) reads have same: "element m1 sl = element m sl"
          by (auto simp: element_def)
        have perm: "permission r = permissionField (receiver m1)"
          using Suc.prems(3) one(3) by simp
        from True Inr Some ident step app Suc.prems unfold
        have "filterLoopMem client g userID sl (Suc i) k acc1 m1 = (res, m')" by simp
        from Suc.IH [OF one(1) _ perm this] reads one(4,5) same True Inr Some ident step range
        show ?thesis
          by (simp add: filterLoop_Cons)
      qed
    qed
  qed
qed


lemma owned_map_element:
  "owned b m sl \<Longrightarrow> map (element m sl) [0..<Len sl] = elements m sl"
proof (cases "Cap sl = 0")
  case True
  assume "owned b m sl"
  with True have "Len sl = 0" by (simp add: owned_def)
  then show ?thesis by (simp add: elements_def)
next
  case False
  assume "owned b m sl"
  with False have "Offset sl + Len sl \<le> length (arrays m (Data sl))" by (simp add: owned_def)
  then show ?thesis by (rule map_element_elements)
qed

lemma owned_reads: "owned b m sl \<Longrightarrow> Len sl = 0 \<or> Data sl < allocated m"
  by (auto simp: owned_def)

lemma not_contains_public:
  "\<not> Contains (ToLower noUnicode (Text doc1)) (ToLower noUnicode ''public'')"
  "\<not> Contains (ToLower noUnicode (Text doc2)) (ToLower noUnicode ''public'')"
  by (simp_all add: doc1_def doc2_def) code_simp+

text \<open>
  The memory model can tell a mutating body from this one. An \<open>append\<close> to the header
  \<open>r.docs[:0]\<close> writes into the collection's array, and the retrieval loop started on that
  header instead of the nil slice overwrites the first test document with the third.
\<close>

lemma append_in_place_overwrites:
  "arrays (snd (appendDocument doubleCap \<lparr>Data = 0, Offset = 0, Len = 0, Cap = 3\<rparr> doc3 testMemory)) 0
     = [doc3, doc2, doc3]"
  by (simp add: appendDocument_def testMemory_def)

lemma retrieval_into_shared_array_overwrites:
  "arrays (snd (retrievalLoopMem noUnicode doubleCap (ToLower noUnicode ''public'')
                  (docsField (receiver testMemory)) 0 3
                  \<lparr>Data = 0, Offset = 0, Len = 0, Cap = 3\<rparr> testMemory)) 0
     = [doc3, doc2, doc3]"
proof -
  have elems: "element testMemory (docsField (receiver testMemory)) 0 = doc1"
    "element testMemory (docsField (receiver testMemory)) (Suc 0) = doc2"
    "element testMemory (docsField (receiver testMemory)) (Suc (Suc 0)) = doc3"
    by (simp_all add: element_def testMemory_def)
  have three: "(3::nat) = Suc (Suc (Suc 0))" by simp
  show ?thesis
    unfolding three
    by (simp add: elems not_contains_public contains_public)
       (simp add: appendDocument_def testMemory_def)
qed

lemma pipelineOf_testMemory: "pipelineOf testMemory = testPipeline"
  by (simp add: pipelineOf_def testMemory_def testPipeline_def elements_def)

section \<open>Queries with the same candidates\<close>

lemma Contains_refl: "Contains s s"
proof -
  have "s = [] @ s @ []" by simp
  then show ?thesis unfolding Contains_iff by blast
qed

lemma Contains_antisym:
  assumes "Contains s t" and "Contains t s"
  shows "s = t"
proof -
  from assms(1) obtain p q where s: "s = p @ t @ q" by (auto simp: Contains_iff)
  from assms(2) obtain p' q' where t: "t = p' @ s @ q'" by (auto simp: Contains_iff)
  from s have "length s = length p + length t + length q" by simp
  moreover from t have "length t = length p' + length s + length q'" by simp
  ultimately have "p = []" and "q = []" by simp_all
  with s show ?thesis by simp
qed

lemma same_candidates_iff:
  "(\<forall>ds. retrieve u ds query1 = retrieve u ds query2) \<longleftrightarrow> ToLower u query1 = ToLower u query2"
proof
  assume same: "\<forall>ds. retrieve u ds query1 = retrieve u ds query2"
  let ?d1 = "\<lparr>ID = [], Text = query1, Metadata = Map.empty\<rparr>"
  let ?d2 = "\<lparr>ID = [], Text = query2, Metadata = Map.empty\<rparr>"
  have "retrieve u [?d1] query1 = [?d1]" by (simp add: retrieve_eq Contains_refl)
  with same have "retrieve u [?d1] query2 = [?d1]" by simp
  then have one: "Contains (ToLower u query1) (ToLower u query2)"
    by (simp add: retrieve_eq split: if_splits)
  have "retrieve u [?d2] query2 = [?d2]" by (simp add: retrieve_eq Contains_refl)
  with same have "retrieve u [?d2] query1 = [?d2]" by simp
  then have two: "Contains (ToLower u query2) (ToLower u query1)"
    by (simp add: retrieve_eq split: if_splits)
  from one two show "ToLower u query1 = ToLower u query2" by (rule Contains_antisym)
next
  assume "ToLower u query1 = ToLower u query2"
  then show "\<forall>ds. retrieve u ds query1 = retrieve u ds query2" by (simp add: retrieve_eq)
qed

lemma sigma_facts:
  "sigmaUpper [CHR 0xCF, CHR 0x82] = [CHR 0xCE, CHR 0xA3]"
  "Contains (ToLower sigmaLower (Text docSigma)) (ToLower sigmaLower [CHR 0xCF, CHR 0x82])"
  "\<not> Contains (ToLower sigmaLower (Text docSigma)) (ToLower sigmaLower [CHR 0xCE, CHR 0xA3])"
  by (simp_all add: docSigma_def) code_simp+

section \<open>The claims\<close>

text \<open>
  Claim C1. Whenever \<open>Query\<close> returns without error, the documents it returns are a
  subsequence of the candidates of the retrieval pass, the candidates are a subsequence of
  the configured collection, and so the returned documents keep the relative order they
  have in the collection.
\<close>
theorem Query_preserves_order:
  assumes "Query u client r s userID query = (Inr result, s')"
  shows "subseq result (retrieve u (docs r) query) \<and>
         subseq (retrieve u (docs r) query) (docs r) \<and>
         subseq result (docs r)"
proof -
  from assms have "filterLoop client r userID (retrieve u (docs r) query) [] s = (Inr result, s')"
    by (simp add: Query_def Let_def)
  from filterLoop_subseq [OF this] have first: "subseq result (retrieve u (docs r) query)"
    by simp
  have second: "subseq (retrieve u (docs r) query) (docs r)"
    by (simp add: retrieve_eq)
  from first second have "subseq result (docs r)"
    by (rule subseq_order.trans)
  with first second show ?thesis by simp
qed

theorem Query_preserves_order_witness:
  "Query noUnicode testService testPipeline () ''beatrice'' [] = (Inr [doc2, doc3], ()) \<and>
   subseq [doc2, doc3] (retrieve noUnicode (docs testPipeline) []) \<and>
   subseq (retrieve noUnicode (docs testPipeline) []) (docs testPipeline) \<and>
   subseq [doc2, doc3] (docs testPipeline)"
  using Query_preserves_order [OF Query_beatrice_all] Query_beatrice_all by simp

text \<open>
  Claim C2. Observe a run of \<open>Query\<close> through the log of its checks. The observed run
  returns what the plain run returns. \<open>Query\<close> returns an error exactly when some check
  it issued failed. If the check at any position of the log failed with \<open>err\<close>, then
  \<open>Query\<close> returns \<open>Inl err\<close> (that error, and no document list), and that check is the
  last of the log (no check is issued after it).
\<close>
theorem Query_fails_fast:
  assumes "Query u (recording client) r (s, []) userID query = (result, (s', log))"
  shows "result = fst (Query u client r s userID query) \<and>
         (isl result \<longleftrightarrow> (\<exists>x\<in>set log. isl (snd x))) \<and>
         (\<forall>n err. n < length log \<longrightarrow> snd (log ! n) = Inl err \<longrightarrow>
            result = Inl err \<and> length log = Suc n)"
proof (intro conjI allI impI)
  note run = Query_recorded [OF assms]
  show "result = fst (Query u client r s userID query)" by (rule run(1))
  show "isl result \<longleftrightarrow> (\<exists>x\<in>set log. isl (snd x))"
  proof
    assume "isl result"
    then obtain err where "result = Inl err" by (cases result) simp_all
    with run(2) have "fst (filterLoop client r userID (retrieve u (docs r) query) [] s) = Inl err"
      by simp
    from filterLoop_error_checked [OF this] run(3)
    have "log \<noteq> []" and "snd (last log) = Inl err" by simp_all
    then have "last log \<in> set log" and "isl (snd (last log))" by simp_all
    then show "\<exists>x\<in>set log. isl (snd x)" by blast
  next
    assume "\<exists>x\<in>set log. isl (snd x)"
    show "isl result"
    proof (cases result)
      case (Inl err)
      then show ?thesis by simp
    next
      case (Inr documents)
      with run(2) have "fst (filterLoop client r userID (retrieve u (docs r) query) [] s) = Inr documents"
        by simp
      from filterLoop_ok_no_error [OF this] run(3) \<open>\<exists>x\<in>set log. isl (snd x)\<close>
      show ?thesis by simp
    qed
  qed
next
  fix n err
  assume "n < length log" and "snd (log ! n) = Inl err"
  note run = Query_recorded [OF assms]
  from \<open>n < length log\<close> \<open>snd (log ! n) = Inl err\<close> run(3)
  have "n < length (checksIssued client r userID (retrieve u (docs r) query) s)"
    and "snd (checksIssued client r userID (retrieve u (docs r) query) s ! n) = Inl err"
    by simp_all
  from checksIssued_error_is_last [OF this, of "[]"] run(2) run(3)
  show "result = Inl err" and "length log = Suc n" by simp_all
qed

theorem Query_fails_fast_witness:
  "Query noUnicode (recording scriptedService) testPipeline
     ([Inr \<lparr>Permissionship = PERMISSIONSHIP_HAS_PERMISSION\<rparr>, Inl ''unavailable''], [])
     ''emilia'' [] =
   (Inl ''unavailable'',
    ([], [(checkRequest testPipeline ''emilia'' ''document'' ''doc1'',
             Inr \<lparr>Permissionship = PERMISSIONSHIP_HAS_PERMISSION\<rparr>),
          (checkRequest testPipeline ''emilia'' ''document'' ''doc2'', Inl ''unavailable'')])) \<and>
   fst (Query noUnicode scriptedService testPipeline
          [Inr \<lparr>Permissionship = PERMISSIONSHIP_HAS_PERMISSION\<rparr>, Inl ''unavailable'']
          ''emilia'' []) = Inl ''unavailable''"
  using Query_fails_fast [OF scripted_emilia_failure, THEN conjunct1] scripted_emilia_failure
  by simp

text \<open>
  Claim C3 as stated fails. The reference \<open>document:\<close> is not two non-empty parts (its
  resource id is empty), yet the loop cuts it at the colon, issues the check for type
  \<open>document\<close> and the empty id, and returns the document when the service grants it.
\<close>
theorem malformed_reference_returned:
  "malformedReference (lookupMeta (Metadata docNoId) ''spicedb_object'') \<and>
   Query noUnicode scriptedService
     \<lparr>docs = [docNoId], resourceType = ''document'', permission = ''read''\<rparr>
     [Inr \<lparr>Permissionship = PERMISSIONSHIP_HAS_PERMISSION\<rparr> :: string + CheckPermissionResponse]
     ''charlie'' ''public'' =
   (Inr [docNoId], [])"
  by (simp add: malformed_docNoId Query_def retrieve_eq contains_public filterLoop_Cons
        resolveIdentity_docNoId scriptedService_step)

text \<open>
  Claim C3, as amended. A document with no \<open>spicedb_object\<close> entry, or whose entry holds
  no colon (the empty value among them), is in no result of \<open>Query\<close>, whatever the
  principal, the query and the collaborator; the loop passes over it without a check and
  without an error.
\<close>
theorem unresolvable_reference_excluded:
  assumes "Metadata d ''spicedb_object'' = None \<or>
           (\<exists>v. Metadata d ''spicedb_object'' = Some v \<and> CHR '':'' \<notin> set v)"
  shows "(\<forall>result s'. Query u client r s userID query = (Inr result, s') \<longrightarrow> d \<notin> set result) \<and>
         filterLoop client r userID (d # ds) allowed s = filterLoop client r userID ds allowed s"
proof -
  from assms have none: "resolveIdentity d = None"
    by (auto simp: resolveIdentity_None_iff lookupMeta_def)
  have "d \<notin> set result" if run: "Query u client r s userID query = (Inr result, s')" for result s'
  proof
    assume "d \<in> set result"
    from run have "fst (filterLoop client r userID (retrieve u (docs r) query) [] s) = Inr result"
      by (simp add: Query_def Let_def)
    from filterLoop_result_resolved [OF this \<open>d \<in> set result\<close>] none show False by simp
  qed
  moreover from none
  have "filterLoop client r userID (d # ds) allowed s = filterLoop client r userID ds allowed s"
    by (simp add: filterLoop_Cons)
  ultimately show ?thesis by blast
qed

theorem unresolvable_reference_excluded_witness:
  "Metadata docNoRef ''spicedb_object'' = None \<and>
   Query noUnicode scriptedService
     \<lparr>docs = [docNoRef, doc3], resourceType = ''document'', permission = ''read''\<rparr>
     [Inr \<lparr>Permissionship = PERMISSIONSHIP_HAS_PERMISSION\<rparr> :: string + CheckPermissionResponse]
     ''charlie'' ''public'' =
   (Inr [doc3], []) \<and>
   docNoRef \<notin> set [doc3]"
proof -
  have missing: "Metadata docNoRef ''spicedb_object'' = None" by (simp add: docNoRef_def)
  from unresolvable_reference_excluded [of docNoRef, OF disjI1, OF missing,
         THEN conjunct1, rule_format, OF Query_noRef]
  have "docNoRef \<notin> set [doc3]" .
  with missing Query_noRef show ?thesis by simp
qed

text \<open>
  Claim C4 as stated fails beyond ASCII. The final small sigma and the capital sigma differ
  only in letter case (the capital is the upper-casing of the final sigma), but
  \<open>strings.ToLower\<close> leaves the one and maps the other to the plain small sigma: a document
  whose text is the final sigma is a candidate for the first query and not for the second.
\<close>
theorem final_sigma_separated:
  "sigmaUpper [CHR 0xCF, CHR 0x82] = [CHR 0xCE, CHR 0xA3] \<and>
   retrieve sigmaLower [docSigma] [CHR 0xCF, CHR 0x82] = [docSigma] \<and>
   retrieve sigmaLower [docSigma] [CHR 0xCE, CHR 0xA3] = []"
  using sigma_facts by (simp add: retrieve_eq)

text \<open>
  Claim C4, as amended. The retrieval pass keeps exactly the documents whose lower-cased
  text has the lower-cased query as a contiguous substring (some bytes before, the query,
  some bytes after). Two queries have the same candidates on every collection exactly when
  \<open>strings.ToLower\<close> maps them to the same string; for two queries of ASCII bytes, that is
  exactly when they are equal once every byte \<open>'A'..'Z'\<close> is replaced by its lower-case
  byte, that is, when they differ in letter case only.
\<close>
theorem retrieve_case_insensitive_substring:
  "retrieve u ds query =
     filter (\<lambda>d. \<exists>before after. ToLower u (Text d) = before @ ToLower u query @ after) ds \<and>
   ((\<forall>collection. retrieve u collection query1 = retrieve u collection query2) \<longleftrightarrow>
      ToLower u query1 = ToLower u query2) \<and>
   (isASCII query1 \<and> isASCII query2 \<longrightarrow>
      ((\<forall>collection. retrieve u collection query1 = retrieve u collection query2) \<longleftrightarrow>
         map lowerByte query1 = map lowerByte query2))"
proof (intro conjI impI)
  show "retrieve u ds query =
     filter (\<lambda>d. \<exists>before after. ToLower u (Text d) = before @ ToLower u query @ after) ds"
    by (simp add: retrieve_eq Contains_iff)
  show "(\<forall>collection. retrieve u collection query1 = retrieve u collection query2) \<longleftrightarrow>
      ToLower u query1 = ToLower u query2"
    by (rule same_candidates_iff)
  assume "isASCII query1 \<and> isASCII query2"
  then have "ToLower u query1 = map lowerByte query1" and "ToLower u query2 = map lowerByte query2"
    by (simp_all add: ToLower_def)
  with same_candidates_iff [of u query1 query2]
  show "(\<forall>collection. retrieve u collection query1 = retrieve u collection query2) \<longleftrightarrow>
         map lowerByte query1 = map lowerByte query2"
    by simp
qed

theorem retrieve_case_insensitive_substring_witness:
  "isASCII ''ROADMAP'' \<and> isASCII ''roadmap'' \<and> map lowerByte ''ROADMAP'' = map lowerByte ''roadmap'' \<and>
   retrieve noUnicode [doc1, doc2, doc3] ''ROADMAP'' = retrieve noUnicode [doc1, doc2, doc3] ''roadmap'' \<and>
   retrieve noUnicode [doc1, doc2, doc3] ''ROADMAP'' = [doc1]"
proof -
  have ascii: "isASCII ''ROADMAP'' \<and> isASCII ''roadmap''"
    using isASCII_roadmap by simp
  have folded: "map lowerByte ''ROADMAP'' = map lowerByte ''roadmap''"
    using isASCII_roadmap by simp
  have upper: "retrieve noUnicode [doc1, doc2, doc3] ''ROADMAP'' = [doc1]"
    using contains_roadmap by (simp add: retrieve_eq)
  from retrieve_case_insensitive_substring
         [of noUnicode "[]" "[]" "''ROADMAP''" "''roadmap''",
          THEN conjunct2, THEN conjunct2, rule_format, OF ascii] folded
  have "\<forall>collection. retrieve noUnicode collection ''ROADMAP'' = retrieve noUnicode collection ''roadmap''"
    by simp
  then have "retrieve noUnicode [doc1, doc2, doc3] ''ROADMAP'' =
             retrieve noUnicode [doc1, doc2, doc3] ''roadmap''" ..
  with ascii folded upper show ?thesis by simp
qed

text \<open>
  Claim C5. With the empty query the retrieval pass returns the whole collection, in
  order: the lower-cased empty query is contained in every lower-cased text.
\<close>
theorem empty_query_retrieves_everything:
  "retrieve u ds [] = ds \<and> Contains (ToLower u (Text d)) (ToLower u [])"
  by (simp add: retrieve_eq ToLower_empty Contains_empty)

theorem empty_query_retrieves_everything_witness:
  "retrieve noUnicode [doc1, doc2, doc3] [] = [doc1, doc2, doc3] \<and>
   Contains (ToLower noUnicode (Text doc2)) (ToLower noUnicode [])"
  using empty_query_retrieves_everything [of noUnicode "[doc1, doc2, doc3]" doc2] by simp

text \<open>
  Claim C6. Identity resolution gives no identity exactly when the document has no
  \<open>spicedb_object\<close> entry, or an empty one, or one that \<open>SplitN\<close> does not cut into two
  parts. In every other case the value has a first colon and the identity is the pair of
  what stands before it and what stands after it. It is a function of the document alone
  (no collaborator, no error value), and a candidate without identity makes the loop move
  on to the next one with the accumulator and the outside world as they were.
\<close>
theorem resolveIdentity_characterised:
  "(resolveIdentity d = None \<longleftrightarrow>
      (Metadata d ''spicedb_object'' = None \<or> Metadata d ''spicedb_object'' = Some [] \<or>
       (\<exists>v. Metadata d ''spicedb_object'' = Some v \<and> length (SplitN v '':'' 2) \<noteq> 2))) \<and>
   (resolveIdentity d \<noteq> None \<longrightarrow>
      (\<exists>v before after. Metadata d ''spicedb_object'' = Some v \<and>
         v = before @ CHR '':'' # after \<and> CHR '':'' \<notin> set before \<and>
         resolveIdentity d = Some (before, after))) \<and>
   (\<forall>before after. Metadata d ''spicedb_object'' = Some (before @ CHR '':'' # after) \<longrightarrow>
      CHR '':'' \<notin> set before \<longrightarrow>
      SplitN (before @ CHR '':'' # after) '':'' 2 = [before, after] \<and>
      resolveIdentity d = Some (before, after)) \<and>
   (resolveIdentity d = None \<longrightarrow>
      filterLoop client r userID (d # ds) allowed s = filterLoop client r userID ds allowed s)"
proof (intro conjI)
  show "resolveIdentity d = None \<longleftrightarrow>
      (Metadata d ''spicedb_object'' = None \<or> Metadata d ''spicedb_object'' = Some [] \<or>
       (\<exists>v. Metadata d ''spicedb_object'' = Some v \<and> length (SplitN v '':'' 2) \<noteq> 2))"
    by (cases "Metadata d ''spicedb_object''")
       (auto simp: resolveIdentity_None_iff lookupMeta_def SplitN_single_2)
  show "resolveIdentity d \<noteq> None \<longrightarrow>
      (\<exists>v before after. Metadata d ''spicedb_object'' = Some v \<and>
         v = before @ CHR '':'' # after \<and> CHR '':'' \<notin> set before \<and>
         resolveIdentity d = Some (before, after))"
  proof
    assume "resolveIdentity d \<noteq> None"
    then have colon: "CHR '':'' \<in> set (lookupMeta (Metadata d) ''spicedb_object'')"
      by (simp add: resolveIdentity_None_iff)
    then obtain v where v: "Metadata d ''spicedb_object'' = Some v"
      by (cases "Metadata d ''spicedb_object''") (simp_all add: lookupMeta_def)
    with colon have "CHR '':'' \<in> set v" by (simp add: lookupMeta_def)
    from split_at_first [OF this] v colon show
      "\<exists>v before after. Metadata d ''spicedb_object'' = Some v \<and>
         v = before @ CHR '':'' # after \<and> CHR '':'' \<notin> set before \<and>
         resolveIdentity d = Some (before, after)"
      by (auto simp: resolveIdentity_eq lookupMeta_def)
  qed
  show "\<forall>before after. Metadata d ''spicedb_object'' = Some (before @ CHR '':'' # after) \<longrightarrow>
      CHR '':'' \<notin> set before \<longrightarrow>
      SplitN (before @ CHR '':'' # after) '':'' 2 = [before, after] \<and>
      resolveIdentity d = Some (before, after)"
    by (simp add: resolveIdentity_eq lookupMeta_def SplitN_single_2 takeWhile_first dropWhile_first)
  show "resolveIdentity d = None \<longrightarrow>
      filterLoop client r userID (d # ds) allowed s = filterLoop client r userID ds allowed s"
    by (simp add: filterLoop_Cons)
qed

theorem resolveIdentity_characterised_witness:
  "Metadata doc1 ''spicedb_object'' = Some (''document'' @ CHR '':'' # ''doc1'') \<and>
   CHR '':'' \<notin> set ''document'' \<and>
   SplitN (''document'' @ CHR '':'' # ''doc1'') '':'' 2 = [''document'', ''doc1''] \<and>
   resolveIdentity doc1 = Some (''document'', ''doc1'') \<and>
   Metadata docNoRef ''spicedb_object'' = None \<and>
   resolveIdentity docNoRef = None"
proof -
  have reference: "Metadata doc1 ''spicedb_object'' = Some (''document'' @ CHR '':'' # ''doc1'')"
    by (simp add: doc1_def)
  have type: "CHR '':'' \<notin> set ''document''" by simp
  have missing: "Metadata docNoRef ''spicedb_object'' = None" by (simp add: docNoRef_def)
  note resolveIdentity_characterised
         [of doc1, THEN conjunct2, THEN conjunct2, THEN conjunct1, rule_format, OF reference type]
  moreover from resolveIdentity_characterised [of docNoRef, THEN conjunct1] missing
  have "resolveIdentity docNoRef = None" by simp
  ultimately show ?thesis using reference type missing by blast
qed

text \<open>
  Claim C7. In an observed run of \<open>Query\<close>, the check at position \<open>n\<close> of the log is the
  one for the \<open>n\<close>-th candidate that has an identity: its resource is the type and id
  resolved from that candidate's reference, its permission is the pipeline's
  \<open>permission\<close>, its subject is the object of type \<open>user\<close> whose id is the principal. The
  pipeline's \<open>resourceType\<close> plays no part: with any other value in that field the run,
  its result and its log are the same.
\<close>
theorem check_requests_from_reference:
  assumes "Query u (recording client) r (s, []) userID query = (result, (s', log))"
  shows "length log \<le> length (filter (\<lambda>d. resolveIdentity d \<noteq> None) (retrieve u (docs r) query)) \<and>
         (\<forall>n. n < length log \<longrightarrow>
            (\<exists>objType objID.
               resolveIdentity (filter (\<lambda>d. resolveIdentity d \<noteq> None) (retrieve u (docs r) query) ! n)
                 = Some (objType, objID) \<and>
               fst (log ! n) =
                 \<lparr>Resource = \<lparr>ObjectType = objType, ObjectId = objID\<rparr>,
                  Permission = permission r,
                  Subject = \<lparr>Object = \<lparr>ObjectType = ''user'', ObjectId = userID\<rparr>\<rparr>\<rparr>)) \<and>
         Query u (recording client) (r\<lparr>resourceType := anyType\<rparr>) (s, []) userID query
           = (result, (s', log))"
proof (intro conjI allI impI)
  note run = Query_recorded [OF assms]
  let ?resolved = "filter (\<lambda>d. resolveIdentity d \<noteq> None) (retrieve u (docs r) query)"
  have below: "n < length ?resolved" if "n < length log" for n
    using that checksIssued_requests [of n client r userID "retrieve u (docs r) query" s] run(3)
    by simp
  show "length log \<le> length ?resolved"
  proof (rule ccontr)
    assume "\<not> length log \<le> length ?resolved"
    then have "length ?resolved < length log" by simp
    from below [OF this] show False by simp
  qed
  show "Query u (recording client) (r\<lparr>resourceType := anyType\<rparr>) (s, []) userID query
          = (result, (s', log))"
  proof -
    have "Query u (recording client) (r\<lparr>resourceType := anyType\<rparr>) (s, []) userID query =
          Query u (recording client) r (s, []) userID query"
      by (rule Query_permission_only) simp_all
    with assms show ?thesis by simp
  qed
next
  fix n
  assume "n < length log"
  note run = Query_recorded [OF assms]
  from \<open>n < length log\<close> run(3)
       checksIssued_requests [of n client r userID "retrieve u (docs r) query" s]
  show "\<exists>objType objID.
          resolveIdentity (filter (\<lambda>d. resolveIdentity d \<noteq> None) (retrieve u (docs r) query) ! n)
            = Some (objType, objID) \<and>
          fst (log ! n) =
            \<lparr>Resource = \<lparr>ObjectType = objType, ObjectId = objID\<rparr>,
             Permission = permission r,
             Subject = \<lparr>Object = \<lparr>ObjectType = ''user'', ObjectId = userID\<rparr>\<rparr>\<rparr>"
    by (simp add: checkRequest_def)
qed

theorem check_requests_from_reference_witness:
  "Query noUnicode (recording testService) testPipeline ((), []) ''charlie'' [] =
   (Inr [doc3],
    ((), [(checkRequest testPipeline ''charlie'' ''document'' ''doc1'',
             Inr \<lparr>Permissionship = PERMISSIONSHIP_NO_PERMISSION\<rparr>),
          (checkRequest testPipeline ''charlie'' ''document'' ''doc2'',
             Inr \<lparr>Permissionship = PERMISSIONSHIP_NO_PERMISSION\<rparr>),
          (checkRequest testPipeline ''charlie'' ''document'' ''doc3'',
             Inr \<lparr>Permissionship = PERMISSIONSHIP_HAS_PERMISSION\<rparr>)])) \<and>
   Query noUnicode (recording testService) (testPipeline\<lparr>resourceType := ''folder''\<rparr>) ((), [])
     ''charlie'' [] =
   (Inr [doc3],
    ((), [(checkRequest testPipeline ''charlie'' ''document'' ''doc1'',
             Inr \<lparr>Permissionship = PERMISSIONSHIP_NO_PERMISSION\<rparr>),
          (checkRequest testPipeline ''charlie'' ''document'' ''doc2'',
             Inr \<lparr>Permissionship = PERMISSIONSHIP_NO_PERMISSION\<rparr>),
          (checkRequest testPipeline ''charlie'' ''document'' ''doc3'',
             Inr \<lparr>Permissionship = PERMISSIONSHIP_HAS_PERMISSION\<rparr>)])) \<and>
   checkRequest testPipeline ''charlie'' ''document'' ''doc1'' =
     \<lparr>Resource = \<lparr>ObjectType = ''document'', ObjectId = ''doc1''\<rparr>,
      Permission = ''read'',
      Subject = \<lparr>Object = \<lparr>ObjectType = ''user'', ObjectId = ''charlie''\<rparr>\<rparr>\<rparr>"
proof -
  note inst = check_requests_from_reference [OF observed_charlie, of "''folder''"]
  have first: "filter (\<lambda>d. resolveIdentity d \<noteq> None) (retrieve noUnicode (docs testPipeline) []) ! 0 = doc1"
    by (simp add: retrieve_empty_query docs_testPipeline resolveIdentity_docs)
  from inst [THEN conjunct2, THEN conjunct1, rule_format, of 0] first
  have "checkRequest testPipeline ''charlie'' ''document'' ''doc1'' =
     \<lparr>Resource = \<lparr>ObjectType = ''document'', ObjectId = ''doc1''\<rparr>,
      Permission = permission testPipeline,
      Subject = \<lparr>Object = \<lparr>ObjectType = ''user'', ObjectId = ''charlie''\<rparr>\<rparr>\<rparr>"
    by (simp add: resolveIdentity_docs)
  then have "checkRequest testPipeline ''charlie'' ''document'' ''doc1'' =
     \<lparr>Resource = \<lparr>ObjectType = ''document'', ObjectId = ''doc1''\<rparr>,
      Permission = ''read'',
      Subject = \<lparr>Object = \<lparr>ObjectType = ''user'', ObjectId = ''charlie''\<rparr>\<rparr>\<rparr>"
    by (simp add: testPipeline_def)
  with observed_charlie inst [THEN conjunct2, THEN conjunct2] show ?thesis by simp
qed

text \<open>
  Claim C8. Take two observed runs of \<open>Query\<close> with the same library, pipeline,
  principal and query, against collaborators that may differ (in kind and in state). If
  the collaborators give the same answer to the check at each position that both logs
  have, the two runs return the same result (the same documents or the same error) and
  issue the same checks.
\<close>
theorem Query_deterministic:
  assumes "Query u (recording client1) r (s1, []) userID query = (result1, (s1', log1))"
    and "Query u (recording client2) r (s2, []) userID query = (result2, (s2', log2))"
    and "\<forall>n. n < length log1 \<longrightarrow> n < length log2 \<longrightarrow> snd (log1 ! n) = snd (log2 ! n)"
  shows "result1 = result2 \<and> log1 = log2"
proof -
  note run1 = Query_recorded [OF assms(1)]
  note run2 = Query_recorded [OF assms(2)]
  from assms(3) run1(3) run2(3)
  have "\<forall>n. n < length (checksIssued client1 r userID (retrieve u (docs r) query) s1) \<longrightarrow>
            n < length (checksIssued client2 r userID (retrieve u (docs r) query) s2) \<longrightarrow>
            snd (checksIssued client1 r userID (retrieve u (docs r) query) s1 ! n) =
            snd (checksIssued client2 r userID (retrieve u (docs r) query) s2 ! n)"
    by simp
  from filterLoop_same_answers [OF this, of "[]"] run1(2,3) run2(2,3) show ?thesis by simp
qed

theorem Query_deterministic_witness:
  "Query noUnicode (recording testService) testPipeline ((), []) ''charlie'' [] =
   (Inr [doc3],
    ((), [(checkRequest testPipeline ''charlie'' ''document'' ''doc1'',
             Inr \<lparr>Permissionship = PERMISSIONSHIP_NO_PERMISSION\<rparr>),
          (checkRequest testPipeline ''charlie'' ''document'' ''doc2'',
             Inr \<lparr>Permissionship = PERMISSIONSHIP_NO_PERMISSION\<rparr>),
          (checkRequest testPipeline ''charlie'' ''document'' ''doc3'',
             Inr \<lparr>Permissionship = PERMISSIONSHIP_HAS_PERMISSION\<rparr>)])) \<and>
   Query noUnicode (recording scriptedService) testPipeline
     ([Inr \<lparr>Permissionship = PERMISSIONSHIP_NO_PERMISSION\<rparr>,
       Inr \<lparr>Permissionship = PERMISSIONSHIP_NO_PERMISSION\<rparr>,
       Inr \<lparr>Permissionship = PERMISSIONSHIP_HAS_PERMISSION\<rparr>], [])
     ''charlie'' [] =
   (Inr [doc3],
    ([], [(checkRequest testPipeline ''charlie'' ''document'' ''doc1'',
             Inr \<lparr>Permissionship = PERMISSIONSHIP_NO_PERMISSION\<rparr> :: string + CheckPermissionResponse),
          (checkRequest testPipeline ''charlie'' ''document'' ''doc2'',
             Inr \<lparr>Permissionship = PERMISSIONSHIP_NO_PERMISSION\<rparr>),
          (checkRequest testPipeline ''charlie'' ''document'' ''doc3'',
             Inr \<lparr>Permissionship = PERMISSIONSHIP_HAS_PERMISSION\<rparr>)])) \<and>
   fst (Query noUnicode (recording testService) testPipeline ((), []) ''charlie'' []) =
   fst (Query noUnicode (recording scriptedService) testPipeline
     ([Inr \<lparr>Permissionship = PERMISSIONSHIP_NO_PERMISSION\<rparr>,
       Inr \<lparr>Permissionship = PERMISSIONSHIP_NO_PERMISSION\<rparr>,
       Inr \<lparr>Permissionship = PERMISSIONSHIP_HAS_PERMISSION\<rparr>], [])
     ''charlie'' [])"
proof -
  let ?log = "[(checkRequest testPipeline ''charlie'' ''document'' ''doc1'',
                  Inr \<lparr>Permissionship = PERMISSIONSHIP_NO_PERMISSION\<rparr> :: string + CheckPermissionResponse),
               (checkRequest testPipeline ''charlie'' ''document'' ''doc2'',
                  Inr \<lparr>Permissionship = PERMISSIONSHIP_NO_PERMISSION\<rparr>),
               (checkRequest testPipeline ''charlie'' ''document'' ''doc3'',
                  Inr \<lparr>Permissionship = PERMISSIONSHIP_HAS_PERMISSION\<rparr>)]"
  have same: "\<forall>n. n < length ?log \<longrightarrow> n < length ?log \<longrightarrow> snd (?log ! n) = snd (?log ! n)"
    by simp
  from Query_deterministic [OF observed_charlie scripted_charlie same, THEN conjunct1]
    observed_charlie scripted_charlie
  show ?thesis by simp
qed

text \<open>
  Claim C9. Run \<open>Query\<close> on memory, with any client, growth policy, principal and query,
  to a document list or to an error. The receiver object is afterwards what it was (the
  header of \<open>docs\<close>, \<open>resourceType\<close> and \<open>permission\<close>), and every array that existed before
  the call holds what it held, the backing array of \<open>r.docs\<close> among them: the pipeline the
  memory holds is unchanged. When \<open>r.docs\<close> lies within its array, the call returns what
  the value-level \<open>Query\<close> returns on that pipeline, leaves the outside world as it does,
  and every document of the returned slice is a document of the collection.
\<close>
theorem Query_mutates_nothing:
  assumes "QueryMem u g client m userID query = (result, m')"
  shows "receiver m' = receiver m \<and>
         (\<forall>a. a < allocated m \<longrightarrow> arrays m' a = arrays m a) \<and>
         (Data (docsField (receiver m)) < allocated m \<longrightarrow> pipelineOf m' = pipelineOf m) \<and>
         (Data (docsField (receiver m)) < allocated m \<and>
          Offset (docsField (receiver m)) + Len (docsField (receiver m))
            \<le> length (arrays m (Data (docsField (receiver m)))) \<longrightarrow>
            map_sum id (elements m') result
              = fst (Query u client (pipelineOf m) (outside m) userID query) \<and>
            outside m' = snd (Query u client (pipelineOf m) (outside m) userID query) \<and>
            (\<forall>returned. result = Inr returned \<longrightarrow>
               set (elements m' returned) \<subseteq> set (docs (pipelineOf m))))"
proof -
  let ?ranged = "docsField (receiver m)"
  obtain candidates m1 where
    retr: "retrievalLoopMem u g (ToLower u query) ?ranged 0 (Len ?ranged) nilSlice m = (candidates, m1)"
    by (cases "retrievalLoopMem u g (ToLower u query) ?ranged 0 (Len ?ranged) nilSlice m")
  with assms have
    filt: "filterLoopMem client g userID candidates 0 (Len candidates) nilSlice m1 = (result, m')"
    by (simp add: QueryMem_def Let_def)
  from retrievalLoopMem_frame [OF owned_nilSlice retr]
  have one: "owned (allocated m) m1 candidates" "\<forall>a<allocated m. arrays m1 a = arrays m a"
    "receiver m1 = receiver m" "outside m1 = outside m" "allocated m \<le> allocated m1"
    by simp_all
  from filterLoopMem_frame [OF owned_nilSlice filt]
  have two: "\<forall>a<allocated m1. arrays m' a = arrays m1 a" "receiver m' = receiver m1"
    by simp_all
  from one two have same: "receiver m' = receiver m" by simp
  from one(2,5) two(1) have frame: "\<forall>a. a < allocated m \<longrightarrow> arrays m' a = arrays m a"
    by auto
  have pipeline: "pipelineOf m' = pipelineOf m" if "Data ?ranged < allocated m"
    using that same frame by (simp add: pipelineOf_def elements_def)
  have refined:
    "map_sum id (elements m') result = fst (Query u client (pipelineOf m) (outside m) userID query) \<and>
     outside m' = snd (Query u client (pipelineOf m) (outside m) userID query) \<and>
     (\<forall>returned. result = Inr returned \<longrightarrow>
        set (elements m' returned) \<subseteq> set (docs (pipelineOf m)))"
    if wf: "Data ?ranged < allocated m \<and>
            Offset ?ranged + Len ?ranged \<le> length (arrays m (Data ?ranged))"
  proof -
    from wf have reads: "Data ?ranged < allocated m" by simp
    from wf have "map (element m ?ranged) [0..<Len ?ranged] = elements m ?ranged"
      by (simp add: map_element_elements)
    with retrievalLoopMem_elements [OF owned_nilSlice reads retr]
    have cands: "elements m1 candidates = retrieve u (docs (pipelineOf m)) query"
      by (simp add: elements_nilSlice retrieve_eq pipelineOf_def)
    from owned_reads [OF one(1)]
    have reads1: "Len candidates = 0 \<or> Data candidates < allocated m1" .
    have perm: "permission (pipelineOf m) = permissionField (receiver m1)"
      using one(3) by (simp add: pipelineOf_def)
    from filterLoopMem_refines [OF owned_nilSlice reads1 perm filt]
      owned_map_element [OF one(1)] cands one(4)
    have run: "map_sum id (elements m') result =
                 fst (Query u client (pipelineOf m) (outside m) userID query)"
      and out: "outside m' = snd (Query u client (pipelineOf m) (outside m) userID query)"
      by (simp_all add: elements_nilSlice Query_def Let_def)
    have "set (elements m' returned) \<subseteq> set (docs (pipelineOf m))" if "result = Inr returned"
      for returned
    proof -
      from run that
      have "fst (filterLoop client (pipelineOf m) userID
                   (retrieve u (docs (pipelineOf m)) query) [] (outside m))
              = Inr (elements m' returned)"
        by (simp add: Query_def Let_def)
      from filterLoop_result_resolved [OF this]
      have "set (elements m' returned) \<subseteq> set (retrieve u (docs (pipelineOf m)) query)" by blast
      also have "\<dots> \<subseteq> set (docs (pipelineOf m))" by (simp add: retrieve_eq)
      finally show ?thesis .
    qed
    with run out show ?thesis by blast
  qed
  from same frame pipeline refined show ?thesis by blast
qed

theorem Query_mutates_nothing_witness:
  "Data (docsField (receiver testMemory)) < allocated testMemory \<and>
   Offset (docsField (receiver testMemory)) + Len (docsField (receiver testMemory))
     \<le> length (arrays testMemory (Data (docsField (receiver testMemory)))) \<and>
   receiver (snd (QueryMem noUnicode doubleCap testService testMemory ''beatrice'' []))
     = receiver testMemory \<and>
   arrays (snd (QueryMem noUnicode doubleCap testService testMemory ''beatrice'' [])) 0
     = [doc1, doc2, doc3] \<and>
   pipelineOf (snd (QueryMem noUnicode doubleCap testService testMemory ''beatrice'' []))
     = testPipeline \<and>
   map_sum id (elements (snd (QueryMem noUnicode doubleCap testService testMemory ''beatrice'' [])))
     (fst (QueryMem noUnicode doubleCap testService testMemory ''beatrice'' []))
     = Inr [doc2, doc3]"
proof -
  have wf: "Data (docsField (receiver testMemory)) < allocated testMemory \<and>
            Offset (docsField (receiver testMemory)) + Len (docsField (receiver testMemory))
              \<le> length (arrays testMemory (Data (docsField (receiver testMemory))))"
    by (simp add: testMemory_def)
  have run: "QueryMem noUnicode doubleCap testService testMemory ''beatrice'' [] =
     (fst (QueryMem noUnicode doubleCap testService testMemory ''beatrice'' []),
      snd (QueryMem noUnicode doubleCap testService testMemory ''beatrice'' []))"
    by simp
  note inst = Query_mutates_nothing [OF run]
  from inst have "receiver (snd (QueryMem noUnicode doubleCap testService testMemory ''beatrice'' []))
     = receiver testMemory"
    by (rule conjunct1)
  moreover from inst
  have "arrays (snd (QueryMem noUnicode doubleCap testService testMemory ''beatrice'' [])) 0
     = arrays testMemory 0"
    by (simp add: testMemory_def)
  moreover have "arrays testMemory 0 = [doc1, doc2, doc3]" by (simp add: testMemory_def)
  moreover from inst wf
  have "pipelineOf (snd (QueryMem noUnicode doubleCap testService testMemory ''beatrice'' []))
     = pipelineOf testMemory"
    by blast
  moreover from inst wf
  have "map_sum id (elements (snd (QueryMem noUnicode doubleCap testService testMemory ''beatrice'' [])))
     (fst (QueryMem noUnicode doubleCap testService testMemory ''beatrice'' []))
     = fst (Query noUnicode testService (pipelineOf testMemory) (outside testMemory) ''beatrice'' [])"
    by blast
  moreover have "outside testMemory = ()" by simp
  ultimately show ?thesis
    using wf by (simp add: pipelineOf_testMemory Query_beatrice_all)
qed

text \<open>
  Claim C10. In an observed run of \<open>Query\<close> where every check returned a response (no
  error), every candidate with an identity is checked, the run returns a document list,
  and that list is, in order, exactly the candidates whose own response has
  permissionship \<open>HAS_PERMISSION\<close>. A response with any other permissionship makes the loop
  continue with the next candidate, the accumulator unchanged.
\<close>
theorem only_has_permission_admits:
  assumes "Query u (recording client) r (s, []) userID query = (result, (s', log))"
    and "\<forall>x\<in>set log. \<not> isl (snd x)"
  shows "length log = length (filter (\<lambda>d. resolveIdentity d \<noteq> None) (retrieve u (docs r) query)) \<and>
         result = Inr (map fst (filter
            (\<lambda>(d, x). \<exists>resp. snd x = Inr resp \<and> Permissionship resp = PERMISSIONSHIP_HAS_PERMISSION)
            (zip (filter (\<lambda>d. resolveIdentity d \<noteq> None) (retrieve u (docs r) query)) log))) \<and>
         (\<forall>d objType objID resp s1 s2 ds allowed.
            resolveIdentity d = Some (objType, objID) \<longrightarrow>
            client s1 (checkRequest r userID objType objID) = (Inr resp, s2) \<longrightarrow>
            Permissionship resp \<noteq> PERMISSIONSHIP_HAS_PERMISSION \<longrightarrow>
            filterLoop client r userID (d # ds) allowed s1 = filterLoop client r userID ds allowed s2)"
proof -
  note run = Query_recorded [OF assms(1)]
  from assms(2) run(3)
  have "\<forall>x\<in>set (checksIssued client r userID (retrieve u (docs r) query) s). \<not> isl (snd x)"
    by simp
  from filterLoop_no_error [OF this, of "[]"] run(2,3)
  have "length log = length (filter (\<lambda>d. resolveIdentity d \<noteq> None) (retrieve u (docs r) query)) \<and>
        result = Inr (map fst (filter
            (\<lambda>(d, x). \<exists>resp. snd x = Inr resp \<and> Permissionship resp = PERMISSIONSHIP_HAS_PERMISSION)
            (zip (filter (\<lambda>d. resolveIdentity d \<noteq> None) (retrieve u (docs r) query)) log)))"
    by simp
  moreover have "\<forall>d objType objID resp s1 s2 ds allowed.
            resolveIdentity d = Some (objType, objID) \<longrightarrow>
            client s1 (checkRequest r userID objType objID) = (Inr resp, s2) \<longrightarrow>
            Permissionship resp \<noteq> PERMISSIONSHIP_HAS_PERMISSION \<longrightarrow>
            filterLoop client r userID (d # ds) allowed s1 = filterLoop client r userID ds allowed s2"
    by (simp add: filterLoop_Cons)
  ultimately show ?thesis by blast
qed

theorem only_has_permission_admits_witness:
  "Query noUnicode (recording scriptedService) testPipeline
     ([Inr \<lparr>Permissionship = PERMISSIONSHIP_CONDITIONAL_PERMISSION\<rparr>,
       Inr \<lparr>Permissionship = PERMISSIONSHIP_UNSPECIFIED\<rparr>,
       Inr \<lparr>Permissionship = PERMISSIONSHIP_HAS_PERMISSION\<rparr>], [])
     ''emilia'' [] =
   (Inr [doc3],
    ([], [(checkRequest testPipeline ''emilia'' ''document'' ''doc1'',
             Inr \<lparr>Permissionship = PERMISSIONSHIP_CONDITIONAL_PERMISSION\<rparr> :: string + CheckPermissionResponse),
          (checkRequest testPipeline ''emilia'' ''document'' ''doc2'',
             Inr \<lparr>Permissionship = PERMISSIONSHIP_UNSPECIFIED\<rparr>),
          (checkRequest testPipeline ''emilia'' ''document'' ''doc3'',
             Inr \<lparr>Permissionship = PERMISSIONSHIP_HAS_PERMISSION\<rparr>)])) \<and>
   length (filter (\<lambda>d. resolveIdentity d \<noteq> None) (retrieve noUnicode (docs testPipeline) [])) = 3"
proof -
  let ?log = "[(checkRequest testPipeline ''emilia'' ''document'' ''doc1'',
                  Inr \<lparr>Permissionship = PERMISSIONSHIP_CONDITIONAL_PERMISSION\<rparr> :: string + CheckPermissionResponse),
               (checkRequest testPipeline ''emilia'' ''document'' ''doc2'',
                  Inr \<lparr>Permissionship = PERMISSIONSHIP_UNSPECIFIED\<rparr>),
               (checkRequest testPipeline ''emilia'' ''document'' ''doc3'',
                  Inr \<lparr>Permissionship = PERMISSIONSHIP_HAS_PERMISSION\<rparr>)]"
  have answered: "\<forall>x\<in>set ?log. \<not> isl (snd x)" by simp
  from only_has_permission_admits [OF scripted_emilia_other_answers answered, THEN conjunct1]
    scripted_emilia_other_answers
  show ?thesis by simp
qed

end
